theory Spec2Isabelle
  imports Complex_Main "HOL-Library.Multiset"
begin

section \<open>Errors and the random source\<close>

text \<open>
  The service (\<^verbatim>\<open>src/services/secretSanta.ts\<close>) throws plain JavaScript
  \<^verbatim>\<open>Error\<close> objects that carry a message. The two messages of the service are
  named after the error taxonomy they stand for. A failure of the store itself is
  tagged by the step of \<^verbatim>\<open>assignSecretSanta\<close> at which it occurs.
\<close>

datatype step =
  StartSession | FindEvent | FindUsers | DeleteMany | InsertMany | SaveEvent | Commit | Abort

datatype error =
    Error string
  | TypeError string
  | ValidationError string
  | DuplicateKey
  | StoreFailure step

definition InsufficientParticipants :: error where
  "InsufficientParticipants = Error ''Need at least 2 participants for Secret Santa''"

definition EventNotFound :: error where
  "EventNotFound = Error ''Event not found''"

text \<open>
  \<^verbatim>\<open>Math.random()\<close> is the only source of randomness. It is modelled as the infinite
  sequence of results that the coming calls will return; one call takes the head and
  leaves the tail. ECMAScript promises a result in the half-open interval from 0 to 1,
  which is \<open>valid_rng\<close>; the double is taken as the real number it denotes.
\<close>

type_synonym rng = "nat \<Rightarrow> real"

definition Math_random :: "rng \<Rightarrow> real \<times> rng" where
  "Math_random rnd = (rnd 0, \<lambda>k. rnd (Suc k))"

definition valid_rng :: "rng \<Rightarrow> bool" where
  "valid_rng rnd = (\<forall>k. 0 \<le> rnd k \<and> rnd k < 1)"

section \<open>The permutation generator\<close>

text \<open>
  \<^verbatim>\<open>shuffleArray\<close>: copy the array, then for \<open>i\<close> from the last index down to 1 swap
  position \<open>i\<close> with position \<open>j = Math.floor(Math.random() * (i + 1))\<close>. The
  destructuring swap reads both cells first and then writes \<open>shuffled[i]\<close> and
  \<open>shuffled[j]\<close>. With a valid random source \<open>j \<le> i\<close>, so both cells exist.
\<close>

fun shuffleLoop :: "nat \<Rightarrow> 'a list \<Rightarrow> rng \<Rightarrow> 'a list \<times> rng" where
  "shuffleLoop 0 shuffled rnd = (shuffled, rnd)"
| "shuffleLoop (Suc n) shuffled rnd =
     (let i = Suc n;
          (r, rnd') = Math_random rnd;
          j = nat \<lfloor>r * real (i + 1)\<rfloor>
      in shuffleLoop n (shuffled[i := shuffled ! j, j := shuffled ! i]) rnd')"

definition shuffleArray :: "'a list \<Rightarrow> rng \<Rightarrow> 'a list \<times> rng" where
  "shuffleArray array rnd = shuffleLoop (length array - 1) array rnd"

text \<open>
  A JavaScript array read \<open>xs[i]\<close> gives \<^verbatim>\<open>undefined\<close> out of range: \<open>None\<close>.
\<close>

definition elemAt :: "'a list \<Rightarrow> nat \<Rightarrow> 'a option" where
  "elemAt xs i = (if i < length xs then Some (xs ! i) else None)"

text \<open>
  \<^verbatim>\<open>isDerangement\<close>: walk the indices of \<open>original\<close> and answer false at the first
  index where both arrays hold the same value. The source types both arrays as
  \<^verbatim>\<open>string[]\<close>; its body only compares elements with \<^verbatim>\<open>===\<close>, so the element
  type is left open here and \<open>generateDerangement\<close> uses it at strings.
\<close>

function isDerangementFrom :: "nat \<Rightarrow> 'a list \<Rightarrow> 'a list \<Rightarrow> bool" where
  "isDerangementFrom i original shuffled =
     (if i < length original
      then (if elemAt original i = elemAt shuffled i then False
            else isDerangementFrom (i + 1) original shuffled)
      else True)"
  by pat_completeness auto
termination
  by (relation "measure (\<lambda>(i, original, shuffled). length original - i)") auto

declare isDerangementFrom.simps [simp del]

definition isDerangement :: "'a list \<Rightarrow> 'a list \<Rightarrow> bool" where
  "isDerangement original shuffled = isDerangementFrom 0 original shuffled"

text \<open>
  \<^verbatim>\<open>Array.prototype.indexOf\<close> (the first index holding the item, or -1) and
  \<^verbatim>\<open>Number.prototype.toString\<close> on an integer (its decimal numeral).
\<close>

primrec indexOf :: "'a list \<Rightarrow> 'a \<Rightarrow> int" where
  "indexOf [] item = - 1"
| "indexOf (x # xs) item =
     (if x = item then 0
      else (let k = indexOf xs item in if k < 0 then - 1 else k + 1))"

fun digits :: "nat \<Rightarrow> string" where
  "digits n =
     (if n < 10 then [char_of (48 + n)]
      else digits (n div 10) @ [char_of (48 + n mod 10)])"

declare digits.simps [simp del]

definition toString :: "int \<Rightarrow> string" where
  "toString k = (if k < 0 then CHR ''-'' # digits (nat (- k)) else digits (nat k))"

text \<open>
  \<^verbatim>\<open>generateDerangement\<close>. The retry loop draws a shuffle, builds
  \<open>shuffledIndices\<close> as line 52 of the source does, from \<open>array\<close> itself, and
  tests it against \<open>originalIndices\<close>. \<open>None\<close> from the loop means that
  \<open>maxAttempts\<close> draws were rejected; the fallback then moves the last element to
  the front.
\<close>

function derangementLoop ::
  "'a list \<Rightarrow> string list \<Rightarrow> nat \<Rightarrow> nat \<Rightarrow> rng \<Rightarrow> 'a list option \<times> rng" where
  "derangementLoop array originalIndices maxAttempts attempts rnd =
     (if attempts < maxAttempts
      then (let (shuffled, rnd') = shuffleArray array rnd;
                shuffledIndices = map (\<lambda>item. toString (indexOf array item)) array
            in if isDerangement originalIndices shuffledIndices
               then (Some shuffled, rnd')
               else derangementLoop array originalIndices maxAttempts (attempts + 1) rnd')
      else (None, rnd))"
  by pat_completeness auto
termination
  by (relation "measure (\<lambda>(array, originalIndices, maxAttempts, attempts, rnd).
                  maxAttempts - attempts)") auto

declare derangementLoop.simps [simp del]

definition generateDerangement :: "'a list \<Rightarrow> nat \<Rightarrow> rng \<Rightarrow> (error + 'a list) \<times> rng" where
  "generateDerangement array maxAttempts rnd =
     (if length array < 2 then (Inl InsufficientParticipants, rnd)
      else if length array = 2 then (Inr [array ! 1, array ! 0], rnd)
      else (let originalIndices = map (\<lambda>i. toString (int i)) [0..<length array]
            in case derangementLoop array originalIndices maxAttempts 0 rnd of
                 (Some shuffled, rnd') \<Rightarrow> (Inr shuffled, rnd')
               | (None, rnd') \<Rightarrow> (Inr (last array # butlast array), rnd')))"

section \<open>The store\<close>

text \<open>
  The three collections, as the schemas under \<^verbatim>\<open>src/models\<close> declare them. An
  \<^verbatim>\<open>ObjectId\<close> is an opaque identifier, here a natural number. The
  \<^verbatim>\<open>createdAt\<close> and \<^verbatim>\<open>updatedAt\<close> timestamps are left out: no operation of
  the service reads them. The wishlist is a subdocument with a schema of its own
  (\<^verbatim>\<open>WishlistSchema\<close>, declared without \<^verbatim>\<open>_id: false\<close>), so mongoose gives it an
  \<open>_id\<close> besides \<open>wishText\<close> and \<open>link\<close>.
\<close>

type_synonym oid = nat

record wishlist =
  wishlist_id :: oid
  wishText :: string
  link :: string

datatype role = RoleUser | RoleAdmin

record user =
  user_id :: oid
  user_name :: string
  user_email :: string
  passwordHash :: "string option"
  googleId :: "string option"
  user_role :: role
  user_wishlist :: wishlist
  user_eventId :: "oid option"

datatype EventStatus = Draft | Open | Closed | Assigned

record event =
  event_id :: oid
  event_name :: string
  budgetLimit :: int
  registrationDeadline :: int
  status :: EventStatus

record assignment =
  assignment_id :: oid
  assignment_eventId :: oid
  santaUserId :: oid
  receiverUserId :: oid
  receiverNumber :: nat

record db =
  users :: "user list"
  events :: "event list"
  assignments :: "assignment list"

text \<open>
  What the Node process holds besides the store: the random source and the generator
  of fresh \<^verbatim>\<open>ObjectId\<close>s, a counter.
\<close>

record proc =
  random :: rng
  nextObjectId :: oid

subsection \<open>Store operations used by the service\<close>

definition findById :: "event list \<Rightarrow> oid \<Rightarrow> event option" where
  "findById evs eventId = find (\<lambda>e. event_id e = eventId) evs"

definition findUsers :: "user list \<Rightarrow> oid \<Rightarrow> user list" where
  "findUsers us eventId = filter (\<lambda>u. user_eventId u = Some eventId) us"

definition deleteMany :: "assignment list \<Rightarrow> oid \<Rightarrow> assignment list" where
  "deleteMany coll eventId = filter (\<lambda>a. assignment_eventId a \<noteq> eventId) coll"

text \<open>
  The plain objects that line 108 of the service builds: event, santa, receiver and
  the number, which is \<^verbatim>\<open>undefined\<close> (\<open>None\<close>) when \<open>shuffledNumbers\<close> is too
  short. Reading \<open>_id\<close> of a missing receiver throws a \<^verbatim>\<open>TypeError\<close>.
\<close>

type_synonym assignmentFields = "oid \<times> oid \<times> oid \<times> nat option"

fun buildAssignments ::
  "oid \<Rightarrow> user list \<Rightarrow> user list \<Rightarrow> nat list \<Rightarrow> nat \<Rightarrow> error + assignmentFields list" where
  "buildAssignments eventId [] receivers shuffledNumbers index = Inr []"
| "buildAssignments eventId (santa # rest) receivers shuffledNumbers index =
     (case elemAt receivers index of
        None \<Rightarrow> Inl (TypeError ''receivers[index] is undefined'')
      | Some receiver \<Rightarrow>
          (case buildAssignments eventId rest receivers shuffledNumbers (index + 1) of
             Inl err \<Rightarrow> Inl err
           | Inr rows \<Rightarrow>
               Inr ((eventId, user_id santa, user_id receiver, elemAt shuffledNumbers index)
                    # rows)))"

text \<open>
  \<^verbatim>\<open>Assignment.insertMany\<close>: every document gets a fresh \<open>_id\<close>; the schema
  requires \<open>receiverNumber\<close>; the documents are then inserted in order, and one that
  repeats, within its event, a receiver number, a santa or a receiver already in the
  collection violates one of the three unique compound indexes of the schema.
\<close>

fun makeDocs :: "oid \<Rightarrow> assignmentFields list \<Rightarrow> error + assignment list" where
  "makeDocs next [] = Inr []"
| "makeDocs next ((ev, santa, receiver, number) # rest) =
     (case number of
        None \<Rightarrow> Inl (ValidationError ''Receiver number is required'')
      | Some n \<Rightarrow>
          (case makeDocs (next + 1) rest of
             Inl err \<Rightarrow> Inl err
           | Inr docs \<Rightarrow>
               Inr (\<lparr>assignment_id = next, assignment_eventId = ev, santaUserId = santa,
                      receiverUserId = receiver, receiverNumber = n\<rparr> # docs)))"

definition duplicateKey :: "assignment list \<Rightarrow> assignment \<Rightarrow> bool" where
  "duplicateKey coll d =
     list_ex (\<lambda>a. assignment_eventId a = assignment_eventId d \<and>
                  (receiverNumber a = receiverNumber d \<or>
                   santaUserId a = santaUserId d \<or>
                   receiverUserId a = receiverUserId d)) coll"

fun insertDocs :: "assignment list \<Rightarrow> assignment list \<Rightarrow> error + assignment list" where
  "insertDocs coll [] = Inr coll"
| "insertDocs coll (d # ds) =
     (if duplicateKey coll d then Inl DuplicateKey else insertDocs (coll @ [d]) ds)"

definition insertMany ::
  "(step \<Rightarrow> bool) \<Rightarrow> oid \<Rightarrow> assignmentFields list \<Rightarrow> assignment list
     \<Rightarrow> error + assignment list" where
  "insertMany fails next rows coll =
     (case makeDocs next rows of
        Inl err \<Rightarrow> Inl err
      | Inr docs \<Rightarrow>
          if fails InsertMany then Inl (StoreFailure InsertMany) else insertDocs coll docs)"

definition saveStatus :: "event list \<Rightarrow> oid \<Rightarrow> EventStatus \<Rightarrow> event list" where
  "saveStatus evs eventId st =
     map (\<lambda>e. if event_id e = eventId then e\<lparr>status := st\<rparr> else e) evs"

section \<open>The assignment orchestrator\<close>

text \<open>
  The store as the service reaches it through mongoose. Besides the committed
  collections the server holds, while the session's transaction is open, the
  transaction's own view of them: a snapshot taken by \<^verbatim>\<open>startTransaction\<close>, which the
  calls that carry the session read and write, and which only
  \<^verbatim>\<open>commitTransaction\<close> makes the committed state. \<^verbatim>\<open>abortTransaction\<close> and
  \<^verbatim>\<open>endSession\<close> drop it. A call that does not carry the session reads and writes
  the committed collections directly. Commit is atomic: it either fails and applies
  nothing or applies the whole view. Other clients are not modelled.
\<close>

record server =
  committed :: db
  working :: "db option"

datatype session = NoSession | Session

definition startTransaction :: "server \<Rightarrow> server" where
  "startTransaction srv = srv\<lparr>working := Some (committed srv)\<rparr>"

definition commitTransaction :: "server \<Rightarrow> server" where
  "commitTransaction srv =
     (case working srv of
        None \<Rightarrow> srv
      | Some w \<Rightarrow> \<lparr>committed = w, working = None\<rparr>)"

definition abortTransaction :: "server \<Rightarrow> server" where
  "abortTransaction srv = srv\<lparr>working := None\<rparr>"

definition endSession :: "server \<Rightarrow> server" where
  "endSession srv = srv\<lparr>working := None\<rparr>"

definition reading :: "session \<Rightarrow> server \<Rightarrow> db" where
  "reading ses srv =
     (case ses of
        NoSession \<Rightarrow> committed srv
      | Session \<Rightarrow> (case working srv of None \<Rightarrow> committed srv | Some w \<Rightarrow> w))"

definition writing :: "session \<Rightarrow> (db \<Rightarrow> db) \<Rightarrow> server \<Rightarrow> server" where
  "writing ses f srv =
     (case ses of
        NoSession \<Rightarrow> srv\<lparr>committed := f (committed srv)\<rparr>
      | Session \<Rightarrow>
          (case working srv of
             None \<Rightarrow> srv\<lparr>committed := f (committed srv)\<rparr>
           | Some w \<Rightarrow> srv\<lparr>working := Some (f w)\<rparr>))"

text \<open>
  The five store calls of the service, each with the session it is given:
  \<^verbatim>\<open>Event.findById(eventId).session(session)\<close>,
  \<^verbatim>\<open>User.find({ eventId }).session(session)\<close>,
  \<^verbatim>\<open>Assignment.deleteMany({ eventId }).session(session)\<close>,
  \<^verbatim>\<open>Assignment.insertMany(assignments, { session })\<close> and
  \<^verbatim>\<open>event.save({ session })\<close>, which writes the changed \<open>status\<close>.
\<close>

definition Event_findById :: "session \<Rightarrow> oid \<Rightarrow> server \<Rightarrow> event option" where
  "Event_findById ses eventId srv = findById (events (reading ses srv)) eventId"

definition User_find :: "session \<Rightarrow> oid \<Rightarrow> server \<Rightarrow> user list" where
  "User_find ses eventId srv = findUsers (users (reading ses srv)) eventId"

definition Assignment_deleteMany :: "session \<Rightarrow> oid \<Rightarrow> server \<Rightarrow> server" where
  "Assignment_deleteMany ses eventId srv =
     writing ses (\<lambda>d. d\<lparr>assignments := deleteMany (assignments d) eventId\<rparr>) srv"

definition Assignment_insertMany ::
  "(step \<Rightarrow> bool) \<Rightarrow> session \<Rightarrow> oid \<Rightarrow> assignmentFields list \<Rightarrow> server
     \<Rightarrow> error + server" where
  "Assignment_insertMany fails ses next rows srv =
     (case insertMany fails next rows (assignments (reading ses srv)) of
        Inl err \<Rightarrow> Inl err
      | Inr coll \<Rightarrow> Inr (writing ses (\<lambda>d. d\<lparr>assignments := coll\<rparr>) srv))"

definition Event_save :: "session \<Rightarrow> oid \<Rightarrow> EventStatus \<Rightarrow> server \<Rightarrow> server" where
  "Event_save ses eventId st srv =
     writing ses (\<lambda>d. d\<lparr>events := saveStatus (events d) eventId st\<rparr>) srv"

text \<open>
  The body of the \<^verbatim>\<open>try\<close> block of \<^verbatim>\<open>assignSecretSanta\<close>, up to and including
  \<^verbatim>\<open>commitTransaction\<close>. Every store call carries the session, as in the source.
  \<open>fails\<close> tells which store calls are made to fail; a call that fails writes
  nothing. The result is the outcome, the process state and the server state at the
  point where the block ends or throws.
\<close>

definition transactionBody ::
  "(step \<Rightarrow> bool) \<Rightarrow> oid \<Rightarrow> proc \<Rightarrow> server \<Rightarrow> (error + unit) \<times> proc \<times> server" where
  "transactionBody fails eventId p srv =
     (if fails FindEvent then (Inl (StoreFailure FindEvent), p, srv)
      else case Event_findById Session eventId srv of
        None \<Rightarrow> (Inl EventNotFound, p, srv)
      | Some event \<Rightarrow>
         (if fails FindUsers then (Inl (StoreFailure FindUsers), p, srv)
          else let participants = User_find Session eventId srv in
            if length participants < 2 then (Inl InsufficientParticipants, p, srv)
            else if fails DeleteMany then (Inl (StoreFailure DeleteMany), p, srv)
            else let srv1 = Assignment_deleteMany Session eventId srv;
                     santas = participants;
                     (generated, rnd1) = generateDerangement participants 1000 (random p)
              in case generated of
                Inl err \<Rightarrow> (Inl err, p\<lparr>random := rnd1\<rparr>, srv1)
              | Inr receivers \<Rightarrow>
                 (let numbers = map (\<lambda>i. i + 1) [0..<length participants];
                      (shuffledNumbers, rnd2) = shuffleArray numbers rnd1;
                      p2 = p\<lparr>random := rnd2\<rparr>
                  in case buildAssignments eventId santas receivers shuffledNumbers 0 of
                    Inl err \<Rightarrow> (Inl err, p2, srv1)
                  | Inr rows \<Rightarrow>
                     (let p3 = p2\<lparr>nextObjectId := nextObjectId p2 + length rows\<rparr>
                      in case Assignment_insertMany fails Session (nextObjectId p2) rows srv1 of
                        Inl err \<Rightarrow> (Inl err, p3, srv1)
                      | Inr srv2 \<Rightarrow>
                         (if fails SaveEvent then (Inl (StoreFailure SaveEvent), p3, srv2)
                          else let srv3 = Event_save Session eventId Assigned srv2
                            in if fails Commit then (Inl (StoreFailure Commit), p3, srv3)
                               else (Inr (), p3, commitTransaction srv3))))))"

text \<open>
  \<^verbatim>\<open>assignSecretSanta\<close> on the server: start the session and its transaction (outside
  the \<^verbatim>\<open>try\<close>, so a failure there is thrown as it is), run the body. A throw is
  caught: \<^verbatim>\<open>abortTransaction\<close> is awaited and the error is thrown again; when
  \<^verbatim>\<open>abortTransaction\<close> itself throws, its error leaves the \<^verbatim>\<open>catch\<close> instead. In
  both cases \<^verbatim>\<open>finally\<close> ends the session, which drops a transaction that is still
  open.
\<close>

definition assignSecretSantaOn ::
  "(step \<Rightarrow> bool) \<Rightarrow> oid \<Rightarrow> proc \<Rightarrow> server \<Rightarrow> (error + unit) \<times> proc \<times> server" where
  "assignSecretSantaOn fails eventId p srv =
     (if fails StartSession then (Inl (StoreFailure StartSession), p, srv)
      else case transactionBody fails eventId p (startTransaction srv) of
        (Inl err, p', srv') \<Rightarrow>
          if fails Abort then (Inl (StoreFailure Abort), p', endSession srv')
          else (Inl err, p', endSession (abortTransaction srv'))
      | (Inr u, p', srv') \<Rightarrow> (Inr (), p', endSession srv'))"

text \<open>
  The call as its caller sees it: the committed store before the call, with no
  transaction of the session open, and the committed store after it.
\<close>

definition assignSecretSanta ::
  "(step \<Rightarrow> bool) \<Rightarrow> oid \<Rightarrow> proc \<Rightarrow> db \<Rightarrow> (error + unit) \<times> proc \<times> db" where
  "assignSecretSanta fails eventId p s =
     (case assignSecretSantaOn fails eventId p \<lparr>committed = s, working = None\<rparr> of
        (outcome, p', srv') \<Rightarrow> (outcome, p', committed srv'))"

section \<open>The assignment reader\<close>



text \<open>
  For the proofs: the documents that a successful run inserts for participants
  \<open>ps\<close>, written out by index. The receiver of the santa at index \<open>k\<close> is the
  element at index \<open>k\<close> of the rotation of \<open>ps\<close>.
\<close>

definition newAssignments :: "oid \<Rightarrow> oid \<Rightarrow> user list \<Rightarrow> nat list \<Rightarrow> assignment list" where
  "newAssignments next eventId ps numbers =
     map (\<lambda>k. \<lparr>assignment_id = next + k, assignment_eventId = eventId,
                santaUserId = user_id (ps ! k),
                receiverUserId = user_id ((last ps # butlast ps) ! k),
                receiverNumber = numbers ! k\<rparr>) [0..<length ps]"

definition eventAssignments :: "db \<Rightarrow> oid \<Rightarrow> assignment list" where
  "eventAssignments s eventId = filter (\<lambda>a. assignment_eventId a = eventId) (assignments s)"

section \<open>A concrete store\<close>

text \<open>
  The scenario of the test suite: an open event with the participants Alice, Bob and
  Charlie, a second event with two participants, a third with one, a user who joined
  no event, and an assignment row that belongs to yet another event.
\<close>

definition participant :: "oid \<Rightarrow> string \<Rightarrow> string \<Rightarrow> string \<Rightarrow> oid option \<Rightarrow> user" where
  "participant i n e w ev =
     \<lparr>user_id = i, user_name = n, user_email = e, passwordHash = None, googleId = None,
      user_role = RoleUser,
      user_wishlist = \<lparr>wishlist_id = 200 + i, wishText = w, link = []\<rparr>,
      user_eventId = ev\<rparr>"

definition exampleUsers :: "user list" where
  "exampleUsers =
     [participant 1 ''Alice'' ''alice@test.com'' ''books'' (Some 7),
      participant 2 ''Bob'' ''bob@test.com'' ''games'' (Some 7),
      participant 3 ''Charlie'' ''charlie@test.com'' ''socks'' (Some 7),
      participant 4 ''David'' ''david@test.com'' [] None,
      participant 5 ''User1'' ''user1@test.com'' ''tea'' (Some 9),
      participant 6 ''User2'' ''user2@test.com'' ''pens'' (Some 9),
      participant 8 ''Lonely User'' ''lonely@test.com'' [] (Some 10)]"

definition exampleEvents :: "event list" where
  "exampleEvents =
     [\<lparr>event_id = 7, event_name = ''Test Event'', budgetLimit = 50,
       registrationDeadline = 86400000, status = Open\<rparr>,
      \<lparr>event_id = 9, event_name = ''Small Event'', budgetLimit = 25,
       registrationDeadline = 86400000, status = Open\<rparr>,
      \<lparr>event_id = 10, event_name = ''Tiny Event'', budgetLimit = 25,
       registrationDeadline = 86400000, status = Open\<rparr>]"

definition exampleStore :: db where
  "exampleStore =
     \<lparr>users = exampleUsers, events = exampleEvents,
      assignments = [\<lparr>assignment_id = 40, assignment_eventId = 11, santaUserId = 21,
                      receiverUserId = 22, receiverNumber = 1\<rparr>]\<rparr>"

definition exampleProc :: proc where
  "exampleProc = \<lparr>random = (\<lambda>k. 0), nextObjectId = 100\<rparr>"

definition noFaults :: "step \<Rightarrow> bool" where
  "noFaults st = False"

text \<open>The store after a fault-free run on event 7, and after one on event 9.\<close>

definition exampleAssigned :: db where
  "exampleAssigned =
     exampleStore\<lparr>assignments :=
          [\<lparr>assignment_id = 40, assignment_eventId = 11, santaUserId = 21,
            receiverUserId = 22, receiverNumber = 1\<rparr>,
           \<lparr>assignment_id = 100, assignment_eventId = 7, santaUserId = 1,
            receiverUserId = 3, receiverNumber = 2\<rparr>,
           \<lparr>assignment_id = 101, assignment_eventId = 7, santaUserId = 2,
            receiverUserId = 1, receiverNumber = 3\<rparr>,
           \<lparr>assignment_id = 102, assignment_eventId = 7, santaUserId = 3,
            receiverUserId = 2, receiverNumber = 1\<rparr>],
        events := saveStatus exampleEvents 7 Assigned\<rparr>"

definition exampleAssignedPair :: db where
  "exampleAssignedPair =
     exampleStore\<lparr>assignments :=
          [\<lparr>assignment_id = 40, assignment_eventId = 11, santaUserId = 21,
            receiverUserId = 22, receiverNumber = 1\<rparr>,
           \<lparr>assignment_id = 100, assignment_eventId = 9, santaUserId = 5,
            receiverUserId = 6, receiverNumber = 2\<rparr>,
           \<lparr>assignment_id = 101, assignment_eventId = 9, santaUserId = 6,
            receiverUserId = 5, receiverNumber = 1\<rparr>],
        events := saveStatus exampleEvents 9 Assigned\<rparr>"

text \<open>
  A store that makes the bulk insert fail, one that makes the abort fail as well, the
  store after a second fault-free run on event 7, the first run's result with
  Charlie's name and email changed, and the first run's result with the identifier of
  Alice's wishlist subdocument changed.
\<close>

definition insertFault :: "step \<Rightarrow> bool" where
  "insertFault st = (st = InsertMany)"

definition insertAbortFault :: "step \<Rightarrow> bool" where
  "insertAbortFault st = (st = InsertMany \<or> st = Abort)"

definition exampleReassigned :: db where
  "exampleReassigned =
     exampleStore\<lparr>assignments :=
          [\<lparr>assignment_id = 40, assignment_eventId = 11, santaUserId = 21,
            receiverUserId = 22, receiverNumber = 1\<rparr>,
           \<lparr>assignment_id = 103, assignment_eventId = 7, santaUserId = 1,
            receiverUserId = 3, receiverNumber = 2\<rparr>,
           \<lparr>assignment_id = 104, assignment_eventId = 7, santaUserId = 2,
            receiverUserId = 1, receiverNumber = 3\<rparr>,
           \<lparr>assignment_id = 105, assignment_eventId = 7, santaUserId = 3,
            receiverUserId = 2, receiverNumber = 1\<rparr>],
        events := saveStatus exampleEvents 7 Assigned\<rparr>"






section \<open>Properties of the permutation generator\<close>

lemma isDerangement_same_head:
  assumes "original \<noteq> []" "shuffled \<noteq> []" "hd original = hd shuffled"
  shows "\<not> isDerangement original shuffled"
proof -
  from assms obtain x xs ys where "original = x # xs" "shuffled = x # ys"
    by (cases original; cases shuffled) auto
  then show ?thesis
    by (simp add: isDerangement_def isDerangementFrom.simps [of 0] elemAt_def)
qed

lemma indices_never_deranged:
  assumes "array \<noteq> []"
  shows "\<not> isDerangement (map (\<lambda>i. toString (int i)) [0..<length array])
            (map (\<lambda>item. toString (indexOf array item)) array)"
proof (rule isDerangement_same_head)
  from assms obtain x xs where a: "array = x # xs" by (cases array) auto
  show "map (\<lambda>i. toString (int i)) [0..<length array] \<noteq> []" using assms by simp
  show "map (\<lambda>item. toString (indexOf array item)) array \<noteq> []" using assms by simp
  show "hd (map (\<lambda>i. toString (int i)) [0..<length array])
      = hd (map (\<lambda>item. toString (indexOf array item)) array)"
    by (simp add: a upt_conv_Cons del: upt_Suc)
qed

lemma derangementLoop_rejects:
  assumes "array \<noteq> []"
  shows "fst (derangementLoop array (map (\<lambda>i. toString (int i)) [0..<length array])
                maxAttempts attempts rnd) = None"
proof (induction "maxAttempts - attempts" arbitrary: attempts rnd)
  case 0
  then show ?case by (simp add: derangementLoop.simps [of _ _ maxAttempts attempts])
next
  case (Suc d)
  then have lt: "attempts < maxAttempts" and d: "d = maxAttempts - (attempts + 1)" by auto
  show ?case
    using lt Suc.hyps(1) [OF d] indices_never_deranged [OF assms]
    by (simp add: derangementLoop.simps [of _ _ maxAttempts attempts] split: prod.splits)
qed

lemma generateDerangement_fallback:
  assumes "3 \<le> length array"
  shows "fst (generateDerangement array maxAttempts rnd) = Inr (last array # butlast array)"
proof -
  from assms have ne: "array \<noteq> []" by auto
  obtain res rnd' where l:
    "derangementLoop array (map (\<lambda>i. toString (int i)) [0..<length array]) maxAttempts 0 rnd
       = (res, rnd')"
    by (cases "derangementLoop array (map (\<lambda>i. toString (int i)) [0..<length array])
                 maxAttempts 0 rnd") auto
  from derangementLoop_rejects [OF ne, of maxAttempts 0 rnd] l have "res = None" by simp
  with l assms show ?thesis by (simp add: generateDerangement_def)
qed

lemma isDerangementFrom_iff:
  "isDerangementFrom k original shuffled =
     (\<forall>i. k \<le> i \<and> i < length original \<longrightarrow> elemAt original i \<noteq> elemAt shuffled i)"
proof (induction k original shuffled rule: isDerangementFrom.induct)
  case (1 i original shuffled)
  show ?case
  proof (cases "i < length original")
    case False
    then show ?thesis by (auto simp: isDerangementFrom.simps [of i])
  next
    case True
    show ?thesis
    proof (cases "elemAt original i = elemAt shuffled i")
      case True
      with \<open>i < length original\<close> show ?thesis
        by (auto simp: isDerangementFrom.simps [of i])
    next
      case False
      have "(\<forall>j. i \<le> j \<and> j < length original \<longrightarrow> elemAt original j \<noteq> elemAt shuffled j)
          = (\<forall>j. i + 1 \<le> j \<and> j < length original \<longrightarrow> elemAt original j \<noteq> elemAt shuffled j)"
        using False by (metis Suc_eq_plus1 Suc_leI le_neq_implies_less Suc_leD)
      with True False "1.IH" show ?thesis
        by (simp add: isDerangementFrom.simps [of i])
    qed
  qed
qed

lemma isDerangement_iff:
  assumes "length shuffled = length original"
  shows "isDerangement original shuffled = (\<forall>i<length original. original ! i \<noteq> shuffled ! i)"
  using assms by (auto simp: isDerangement_def isDerangementFrom_iff elemAt_def)

lemma rotation_moves_every_element:
  assumes "distinct xs" "2 \<le> length xs" "i < length xs"
  shows "(last xs # butlast xs) ! i \<noteq> xs ! i"
proof (cases i)
  case 0
  from assms have "xs \<noteq> []" by auto
  then have l: "last xs = xs ! (length xs - 1)" by (rule last_conv_nth)
  have "length xs - 1 < length xs" "0 < length xs" "length xs - 1 \<noteq> 0"
    using assms by auto
  then have "xs ! (length xs - 1) \<noteq> xs ! 0"
    using assms(1) by (simp add: nth_eq_iff_index_eq)
  with l show ?thesis using 0 by simp
next
  case (Suc k)
  with assms have "butlast xs ! k = xs ! k" by (simp add: nth_butlast)
  moreover from assms Suc have "xs ! k \<noteq> xs ! Suc k" by (simp add: nth_eq_iff_index_eq)
  ultimately show ?thesis using Suc by simp
qed

lemma rotation_mset:
  assumes "xs \<noteq> []"
  shows "mset (last xs # butlast xs) = mset xs"
proof -
  from assms have "mset xs = mset (butlast xs @ [last xs])" by simp
  then show ?thesis by simp
qed

lemma generateDerangement_rotation:
  assumes "2 \<le> length array"
  shows "fst (generateDerangement array maxAttempts rnd) = Inr (last array # butlast array)"
proof (cases "length array = 2")
  case True
  then obtain a b where "array = [a, b]"
    by (cases array; cases "tl array"; cases "tl (tl array)") auto
  then show ?thesis by (simp add: generateDerangement_def)
next
  case False
  with assms have "3 \<le> length array" by simp
  then show ?thesis by (rule generateDerangement_fallback)
qed

subsection \<open>The shuffle and the random source\<close>

lemma draw_in_range:
  assumes "0 \<le> r" "r < 1"
  shows "nat \<lfloor>r * real (Suc n)\<rfloor> \<le> n"
proof -
  from assms have "r * real (Suc n) < real (Suc n)" by simp
  then have "\<lfloor>r * real (Suc n)\<rfloor> < int (Suc n)" by (simp add: floor_less_iff)
  then show ?thesis by linarith
qed

lemma valid_rng_tail: "valid_rng rnd \<Longrightarrow> valid_rng (\<lambda>k. rnd (Suc k))"
  by (simp add: valid_rng_def)

lemma shuffleLoop_length: "length (fst (shuffleLoop n xs rnd)) = length xs"
  by (induction n arbitrary: xs rnd) (simp_all add: Let_def Math_random_def)

lemma shuffleLoop_valid: "valid_rng rnd \<Longrightarrow> valid_rng (snd (shuffleLoop n xs rnd))"
  by (induction n arbitrary: xs rnd) (simp_all add: Let_def Math_random_def valid_rng_tail)

lemma shuffleLoop_mset:
  "valid_rng rnd \<Longrightarrow> n < length xs \<Longrightarrow> mset (fst (shuffleLoop n xs rnd)) = mset xs"
proof (induction n arbitrary: xs rnd)
  case 0
  then show ?case by simp
next
  case (Suc n)
  let ?j = "nat \<lfloor>rnd 0 * real (Suc n + 1)\<rfloor>"
  from Suc.prems(1) have "0 \<le> rnd 0" "rnd 0 < 1" by (simp_all add: valid_rng_def)
  then have "?j \<le> Suc n" using draw_in_range [of "rnd 0" "Suc n"] by simp
  with Suc.prems(2) have j: "?j < length xs" by simp
  let ?ys = "xs[Suc n := xs ! ?j, ?j := xs ! Suc n]"
  have "mset ?ys = mset xs" using j Suc.prems(2) by (simp add: mset_swap)
  moreover have "mset (fst (shuffleLoop n ?ys (\<lambda>k. rnd (Suc k)))) = mset ?ys"
    using Suc.prems by (intro Suc.IH) (simp_all add: valid_rng_tail)
  ultimately show ?case by (simp add: Let_def Math_random_def)
qed

lemma shuffleArray_length: "length (fst (shuffleArray xs rnd)) = length xs"
  by (simp add: shuffleArray_def shuffleLoop_length)

lemma shuffleArray_valid: "valid_rng rnd \<Longrightarrow> valid_rng (snd (shuffleArray xs rnd))"
  by (simp add: shuffleArray_def shuffleLoop_valid)

lemma shuffleArray_mset:
  assumes "valid_rng rnd"
  shows "mset (fst (shuffleArray xs rnd)) = mset xs"
proof (cases xs)
  case Nil
  then show ?thesis by (simp add: shuffleArray_def)
next
  case (Cons x xs')
  then show ?thesis using assms by (simp add: shuffleArray_def shuffleLoop_mset)
qed

lemma shuffled_numbers:
  assumes "valid_rng rnd"
  shows "mset (fst (shuffleArray (map Suc [0..<n]) rnd)) = mset [1..<Suc n]"
proof -
  have "map Suc [0..<n] = [1..<Suc n]" by (simp add: map_Suc_upt)
  with shuffleArray_mset [OF assms, of "map Suc [0..<n]"] show ?thesis by simp
qed

lemma derangementLoop_valid:
  "valid_rng rnd \<Longrightarrow> valid_rng (snd (derangementLoop array originalIndices maxAttempts attempts rnd))"
proof (induction array originalIndices maxAttempts attempts rnd rule: derangementLoop.induct)
  case (1 array originalIndices maxAttempts attempts rnd)
  show ?case
  proof (cases "attempts < maxAttempts")
    case False
    with "1.prems" show ?thesis by (simp add: derangementLoop.simps [of _ _ maxAttempts attempts])
  next
    case True
    obtain shuffled rnd' where sh: "shuffleArray array rnd = (shuffled, rnd')"
      by (cases "shuffleArray array rnd") auto
    with "1.prems" shuffleArray_valid [of rnd array] have v: "valid_rng rnd'" by simp
    show ?thesis
      using True sh v "1.IH" [OF True sh [symmetric] refl refl _ v]
      by (simp add: derangementLoop.simps [of _ _ maxAttempts attempts])
  qed
qed

lemma generateDerangement_valid:
  "valid_rng rnd \<Longrightarrow> valid_rng (snd (generateDerangement array maxAttempts rnd))"
  using derangementLoop_valid [of rnd array "map (\<lambda>i. toString (int i)) [0..<length array]" maxAttempts 0]
  by (auto simp: generateDerangement_def Let_def split: prod.splits option.splits)

lemma generateDerangement_result:
  assumes "2 \<le> length array"
  shows "\<exists>rnd'. generateDerangement array maxAttempts rnd = (Inr (last array # butlast array), rnd')
            \<and> (valid_rng rnd \<longrightarrow> valid_rng rnd')"
  using generateDerangement_rotation [OF assms, of maxAttempts rnd]
        generateDerangement_valid [of rnd array maxAttempts]
  by (cases "generateDerangement array maxAttempts rnd") auto

lemma shuffleLoop_constant_rng: "snd (shuffleLoop n xs (\<lambda>k. c)) = (\<lambda>k. c)"
  by (induction n arbitrary: xs) (simp_all add: Let_def Math_random_def)

lemma derangementLoop_constant_rng:
  "rnd = (\<lambda>k. c) \<Longrightarrow>
     snd (derangementLoop array originalIndices maxAttempts attempts rnd) = (\<lambda>k. c)"
proof (induction array originalIndices maxAttempts attempts rnd rule: derangementLoop.induct)
  case (1 array originalIndices maxAttempts attempts rnd)
  show ?case
  proof (cases "attempts < maxAttempts")
    case False
    with "1.prems" show ?thesis by (simp add: derangementLoop.simps [of _ _ maxAttempts attempts])
  next
    case True
    obtain shuffled rnd' where sh: "shuffleArray array rnd = (shuffled, rnd')"
      by (cases "shuffleArray array rnd") auto
    with "1.prems" shuffleLoop_constant_rng [of "length array - 1" array c]
    have v: "rnd' = (\<lambda>k. c)" by (simp add: shuffleArray_def)
    show ?thesis
      using True sh v "1.IH" [OF True sh [symmetric] refl refl _ v]
      by (simp add: derangementLoop.simps [of _ _ maxAttempts attempts])
  qed
qed

lemma generateDerangement_constant_rng:
  assumes "2 \<le> length array"
  shows "generateDerangement array maxAttempts (\<lambda>k. c) = (Inr (last array # butlast array), \<lambda>k. c)"
proof -
  have "snd (generateDerangement array maxAttempts (\<lambda>k. c)) = (\<lambda>k. c)"
    using derangementLoop_constant_rng
            [of "\<lambda>k. c" c array "map (\<lambda>i. toString (int i)) [0..<length array]" maxAttempts 0]
    by (auto simp: generateDerangement_def Let_def split: prod.splits option.splits)
  with generateDerangement_rotation [OF assms, of maxAttempts "\<lambda>k. c"] show ?thesis
    by (cases "generateDerangement array maxAttempts (\<lambda>k. c)") simp
qed

subsection \<open>What the generator returns\<close>

text \<open>
  C3. For an input of three or more distinct elements the retry loop accepts no
  shuffle: the index list it tests is computed from the input array, not from the
  shuffle, so it is the list of original indices again. The generator therefore
  returns the rotation by one position (last element first) for every random source,
  and any two random sources give the same result.
\<close>

theorem generateDerangement_ignores_random_source:
  assumes "distinct array" and "3 \<le> length array"
  shows "fst (derangementLoop array (map (\<lambda>i. toString (int i)) [0..<length array])
                maxAttempts 0 rnd1) = None
       \<and> fst (generateDerangement array maxAttempts rnd1) = Inr (last array # butlast array)
       \<and> fst (generateDerangement array maxAttempts rnd1)
           = fst (generateDerangement array maxAttempts rnd2)"
proof -
  from assms(2) have "array \<noteq> []" by auto
  then show ?thesis
    using assms(2) by (simp add: derangementLoop_rejects generateDerangement_fallback)
qed

theorem generateDerangement_ignores_random_source_witness:
  "distinct [1, 2, 3 :: nat] \<and> 3 \<le> length [1, 2, 3 :: nat]
   \<and> fst (generateDerangement [1, 2, 3 :: nat] 1000 (\<lambda>k. 0)) = Inr [3, 1, 2]
   \<and> fst (generateDerangement [1, 2, 3 :: nat] 1000 (\<lambda>k. 0))
       = fst (generateDerangement [1, 2, 3 :: nat] 1000 (\<lambda>k. 1 / 2))"
  using generateDerangement_ignores_random_source
          [of "[1, 2, 3 :: nat]" 1000 "\<lambda>k. 0" "\<lambda>k. 1 / 2"]
  by auto

text \<open>
  C10. For every input of length at least 2 the generator returns a result, and the
  result is the input with its last element moved to the front; with a retry bound of
  0 and three or more elements this is the fallback of the source taken at once, with
  no draw. For distinct elements that result is a derangement of the input: a
  permutation that the source's own test \<open>isDerangement\<close> accepts, with no element
  left at its index. The generator fails exactly when the input is shorter than 2,
  with the error of the length check.
\<close>

theorem rotation_is_derangement_generator_total:
  assumes "2 \<le> length xs"
  shows "fst (generateDerangement xs maxAttempts rnd) = Inr (last xs # butlast xs)
       \<and> (3 \<le> length xs \<longrightarrow>
             generateDerangement xs 0 rnd = (Inr (last xs # butlast xs), rnd))
       \<and> (\<forall>zs err. fst (generateDerangement zs maxAttempts rnd) = Inl err
             \<longrightarrow> length zs < 2 \<and> err = InsufficientParticipants)
       \<and> (distinct xs \<longrightarrow>
             (\<exists>ys. fst (generateDerangement xs maxAttempts rnd) = Inr ys
                \<and> isDerangement xs ys
                \<and> mset ys = mset xs
                \<and> (\<forall>i<length xs. ys ! i \<noteq> xs ! i)))"
proof (intro conjI allI impI)
  show res: "fst (generateDerangement xs maxAttempts rnd) = Inr (last xs # butlast xs)"
    using assms by (rule generateDerangement_rotation)
  {
    assume "3 \<le> length xs"
    then show "generateDerangement xs 0 rnd = (Inr (last xs # butlast xs), rnd)"
      by (simp add: generateDerangement_def derangementLoop.simps [of _ _ 0 0])
  }
  {
    fix zs err
    assume e: "fst (generateDerangement zs maxAttempts rnd) = Inl err"
    show "length zs < 2"
    proof (rule ccontr)
      assume "\<not> length zs < 2"
      then have "2 \<le> length zs" by simp
      from generateDerangement_rotation [OF this] e show False by simp
    qed
    then show "err = InsufficientParticipants"
      using e by (simp add: generateDerangement_def)
  }
  {
    assume d: "distinct xs"
    from assms have ne: "xs \<noteq> []" by auto
    then have len: "length (last xs # butlast xs) = length xs" by simp
    have a: "isDerangement xs (last xs # butlast xs)"
      using rotation_moves_every_element [OF d assms]
      by (simp only: isDerangement_iff [OF len]) (metis)
    have b: "mset (last xs # butlast xs) = mset xs" using ne by (rule rotation_mset)
    have c: "\<forall>i<length xs. (last xs # butlast xs) ! i \<noteq> xs ! i"
      using rotation_moves_every_element [OF d assms] by blast
    from res a b c
    show "\<exists>ys. fst (generateDerangement xs maxAttempts rnd) = Inr ys
                \<and> isDerangement xs ys \<and> mset ys = mset xs
                \<and> (\<forall>i<length xs. ys ! i \<noteq> xs ! i)"
      by blast
  }
qed

theorem rotation_is_derangement_generator_total_witness:
  "2 \<le> length [1, 2, 3 :: nat] \<and> 3 \<le> length [1, 2, 3 :: nat] \<and> distinct [1, 2, 3 :: nat]
   \<and> fst (generateDerangement [1, 2, 3 :: nat] 1000 (\<lambda>k. 0)) = Inr [3, 1, 2]
   \<and> generateDerangement [1, 2, 3 :: nat] 0 (\<lambda>k. 0) = (Inr [3, 1, 2], \<lambda>k. 0)
   \<and> isDerangement [1, 2, 3 :: nat] [3, 1, 2]
   \<and> mset [3, 1, 2 :: nat] = mset [1, 2, 3]"
proof -
  note t = rotation_is_derangement_generator_total [of "[1, 2, 3 :: nat]" 1000 "\<lambda>k. 0"]
  have l: "2 \<le> length [1, 2, 3 :: nat]" "3 \<le> length [1, 2, 3 :: nat]"
    and d: "distinct [1, 2, 3 :: nat]" by simp_all
  have rot: "last [1, 2, 3 :: nat] # butlast [1, 2, 3] = [3, 1, 2]" by simp
  from t [OF l(1)]
  have "fst (generateDerangement [1, 2, 3 :: nat] 1000 (\<lambda>k. 0))
          = Inr (last [1, 2, 3] # butlast [1, 2, 3])"
    by (elim conjE)
  then have r: "fst (generateDerangement [1, 2, 3 :: nat] 1000 (\<lambda>k. 0)) = Inr [3, 1, 2]"
    by (simp only: rot)
  from t [OF l(1)]
  have "3 \<le> length [1, 2, 3 :: nat] \<longrightarrow>
          generateDerangement [1, 2, 3 :: nat] 0 (\<lambda>k. 0)
            = (Inr (last [1, 2, 3] # butlast [1, 2, 3]), \<lambda>k. 0)"
    by (elim conjE)
  with l(2) have z: "generateDerangement [1, 2, 3 :: nat] 0 (\<lambda>k. 0) = (Inr [3, 1, 2], \<lambda>k. 0)"
    by (simp only: rot)
  from t [OF l(1)] d obtain ys where
    ys: "fst (generateDerangement [1, 2, 3 :: nat] 1000 (\<lambda>k. 0)) = Inr ys"
    and iy: "isDerangement [1, 2, 3 :: nat] ys" and my: "mset ys = mset [1, 2, 3 :: nat]"
    by blast
  from ys r have "ys = [3, 1, 2]" by simp
  with iy my have i: "isDerangement [1, 2, 3 :: nat] [3, 1, 2]"
    and m: "mset [3, 1, 2 :: nat] = mset [1, 2, 3]" by simp_all
  from l d r z i m show ?thesis by (intro conjI)
qed

text \<open>
  C2, evaluated where it fails. Let the first two results of \<^verbatim>\<open>Math.random()\<close> be
  1/4 and the later ones be anything. The first shuffle of \<open>[A, B, C]\<close> is then
  \<open>[B, C, A]\<close>, a derangement of the input, which \<open>isDerangement\<close> accepts when it
  is given the two arrays. The generator nevertheless returns \<open>[C, A, B]\<close>, the
  fallback rotation, and not the shuffle it drew first.
\<close>

theorem generateDerangement_rejects_deranged_shuffle:
  "\<forall>later.
     fst (shuffleArray [''A'', ''B'', ''C''] (\<lambda>k. if k < 2 then 1 / 4 else later k))
       = [''B'', ''C'', ''A'']
   \<and> isDerangement [''A'', ''B'', ''C''] [''B'', ''C'', ''A'']
   \<and> fst (generateDerangement [''A'', ''B'', ''C''] 1000
            (\<lambda>k. if k < 2 then 1 / 4 else later k)) = Inr [''C'', ''A'', ''B'']
   \<and> fst (generateDerangement [''A'', ''B'', ''C''] 1000
            (\<lambda>k. if k < 2 then 1 / 4 else later k))
       \<noteq> Inr (fst (shuffleArray [''A'', ''B'', ''C'']
                     (\<lambda>k. if k < 2 then 1 / 4 else later k)))"
proof (intro allI)
  fix later :: rng
  let ?rnd = "\<lambda>k. if k < 2 then 1 / 4 else later k"
  have a: "fst (shuffleArray [''A'', ''B'', ''C''] ?rnd) = [''B'', ''C'', ''A'']"
    by (simp add: shuffleArray_def Math_random_def numeral_2_eq_2)
  have b: "isDerangement [''A'', ''B'', ''C''] [''B'', ''C'', ''A'']"
    by (simp add: isDerangement_iff numeral_3_eq_3 less_Suc_eq)
  have c: "fst (generateDerangement [''A'', ''B'', ''C''] 1000 ?rnd) = Inr [''C'', ''A'', ''B'']"
    by (simp add: generateDerangement_fallback)
  from a b c show "fst (shuffleArray [''A'', ''B'', ''C''] ?rnd) = [''B'', ''C'', ''A'']
   \<and> isDerangement [''A'', ''B'', ''C''] [''B'', ''C'', ''A'']
   \<and> fst (generateDerangement [''A'', ''B'', ''C''] 1000 ?rnd) = Inr [''C'', ''A'', ''B'']
   \<and> fst (generateDerangement [''A'', ''B'', ''C''] 1000 ?rnd)
       \<noteq> Inr (fst (shuffleArray [''A'', ''B'', ''C''] ?rnd))"
    by simp
qed

section \<open>Properties of the assignment orchestrator\<close>

subsection \<open>The rows of a run\<close>

lemma buildAssignments_rows:
  assumes "index + length santas \<le> length receivers"
  shows "buildAssignments eventId santas receivers numbers index =
     Inr (map (\<lambda>k. (eventId, user_id (santas ! k), user_id (receivers ! (index + k)),
                    elemAt numbers (index + k))) [0..<length santas])"
  using assms
proof (induction santas arbitrary: index)
  case Nil
  then show ?case by simp
next
  case (Cons santa rest)
  then have "index < length receivers" and "(index + 1) + length rest \<le> length receivers"
    by auto
  with Cons.IH [of "index + 1"] show ?case
    by (simp add: elemAt_def map_upt_Suc del: upt_Suc)
qed

lemma makeDocs_docs:
  "makeDocs next (map (\<lambda>k. (ev, f k, g k, Some (h k))) [0..<n]) =
     Inr (map (\<lambda>k. \<lparr>assignment_id = next + k, assignment_eventId = ev, santaUserId = f k,
                     receiverUserId = g k, receiverNumber = h k\<rparr>) [0..<n])"
proof (induction n arbitrary: "next" f g h)
  case 0
  then show ?case by simp
next
  case (Suc n)
  from Suc [of "next + 1" "\<lambda>k. f (Suc k)" "\<lambda>k. g (Suc k)" "\<lambda>k. h (Suc k)"]
  show ?case by (simp add: map_upt_Suc del: upt_Suc)
qed

lemma insertDocs_appends: "insertDocs coll ds = Inr coll' \<Longrightarrow> coll' = coll @ ds"
proof (induction ds arbitrary: coll)
  case Nil
  then show ?case by simp
next
  case (Cons d ds)
  from Cons.prems have "insertDocs (coll @ [d]) ds = Inr coll'"
    by (simp split: if_splits)
  from Cons.IH [OF this] show ?case by simp
qed

lemma insertDocs_without_duplicates:
  assumes "\<forall>a \<in> set coll. \<forall>d \<in> set ds.
             assignment_eventId a = assignment_eventId d \<longrightarrow>
               receiverNumber a \<noteq> receiverNumber d \<and> santaUserId a \<noteq> santaUserId d
             \<and> receiverUserId a \<noteq> receiverUserId d"
    and "distinct (map santaUserId ds)"
    and "distinct (map receiverUserId ds)"
    and "distinct (map receiverNumber ds)"
  shows "insertDocs coll ds = Inr (coll @ ds)"
  using assms
proof (induction ds arbitrary: coll)
  case Nil
  then show ?case by simp
next
  case (Cons d ds)
  have fresh: "\<not> duplicateKey coll d"
    using Cons.prems(1) by (auto simp: duplicateKey_def list_ex_iff)
  have "insertDocs (coll @ [d]) ds = Inr ((coll @ [d]) @ ds)"
  proof (rule Cons.IH)
    show "\<forall>a \<in> set (coll @ [d]). \<forall>d' \<in> set ds.
             assignment_eventId a = assignment_eventId d' \<longrightarrow>
               receiverNumber a \<noteq> receiverNumber d' \<and> santaUserId a \<noteq> santaUserId d'
             \<and> receiverUserId a \<noteq> receiverUserId d'"
      using Cons.prems by auto
    show "distinct (map santaUserId ds)" "distinct (map receiverUserId ds)"
      "distinct (map receiverNumber ds)" using Cons.prems by simp_all
  qed
  with fresh show ?case by simp
qed

lemma newAssignments_length [simp]: "length (newAssignments next eventId ps numbers) = length ps"
  by (simp add: newAssignments_def)

lemma newAssignments_santas:
  "map santaUserId (newAssignments next eventId ps numbers) = map user_id ps"
  by (rule nth_equalityI) (simp_all add: newAssignments_def)

lemma newAssignments_receivers:
  assumes "ps \<noteq> []"
  shows "map receiverUserId (newAssignments next eventId ps numbers)
       = map user_id (last ps # butlast ps)"
proof -
  let ?rs = "last ps # butlast ps"
  from assms have len: "length ?rs = length ps" by simp
  have "map receiverUserId (newAssignments next eventId ps numbers)
      = map (\<lambda>k. user_id (?rs ! k)) [0..<length ?rs]"
    unfolding len by (simp add: newAssignments_def)
  also have "\<dots> = map user_id (map ((!) ?rs) [0..<length ?rs])"
    by (simp only: map_map o_def)
  also have "\<dots> = map user_id ?rs"
    by (simp only: map_nth)
  finally show ?thesis .
qed

lemma newAssignments_receivers_mset:
  assumes "ps \<noteq> []"
  shows "mset (map receiverUserId (newAssignments next eventId ps numbers))
       = mset (map user_id ps)"
proof -
  have "mset (map user_id (last ps # butlast ps)) = mset (map user_id ps)"
    using rotation_mset [OF assms] by (metis mset_map)
  then show ?thesis by (simp only: newAssignments_receivers [OF assms])
qed

lemma newAssignments_numbers:
  assumes "length numbers = length ps"
  shows "map receiverNumber (newAssignments next eventId ps numbers) = numbers"
  using assms by (intro nth_equalityI) (simp_all add: newAssignments_def)

lemma newAssignments_ids:
  "map assignment_id (newAssignments next eventId ps numbers) = [next..<next + length ps]"
  by (rule nth_equalityI) (simp_all add: newAssignments_def)

lemma newAssignments_id_range:
  "a \<in> set (newAssignments next eventId ps numbers)
     \<Longrightarrow> next \<le> assignment_id a \<and> assignment_id a < next + length ps"
  by (auto simp: newAssignments_def)

lemma newAssignments_event:
  "a \<in> set (newAssignments next eventId ps numbers) \<Longrightarrow> assignment_eventId a = eventId"
  by (auto simp: newAssignments_def)

lemma eventAssignments_replaced:
  "filter (\<lambda>a. assignment_eventId a = eventId)
     (deleteMany coll eventId @ newAssignments next eventId ps numbers)
   = newAssignments next eventId ps numbers"
proof -
  have "filter (\<lambda>a. assignment_eventId a = eventId) (deleteMany coll eventId) = []"
    by (simp add: deleteMany_def filter_empty_conv)
  moreover have "filter (\<lambda>a. assignment_eventId a = eventId)
                   (newAssignments next eventId ps numbers)
               = newAssignments next eventId ps numbers"
    by (simp add: filter_id_conv newAssignments_event)
  ultimately show ?thesis by simp
qed

lemma newAssignments_no_self:
  assumes d: "distinct (map user_id ps)" and n: "2 \<le> length ps"
    and a: "a \<in> set (newAssignments next eventId ps numbers)"
  shows "santaUserId a \<noteq> receiverUserId a"
proof -
  from a obtain k where k: "k < length ps"
    and s: "santaUserId a = user_id (ps ! k)"
    and r: "receiverUserId a = user_id ((last ps # butlast ps) ! k)"
    by (auto simp: newAssignments_def)
  let ?ids = "map user_id ps"
  from n have ne: "ps \<noteq> []" by auto
  have rot: "map user_id (last ps # butlast ps) = last ?ids # butlast ?ids"
    using ne by (simp add: last_map map_butlast)
  from ne k have "k < length (last ps # butlast ps)" by simp
  then have "user_id ((last ps # butlast ps) ! k) = map user_id (last ps # butlast ps) ! k"
    by (rule nth_map [symmetric])
  with rot have "receiverUserId a = (last ?ids # butlast ?ids) ! k" using r by simp
  moreover have "santaUserId a = ?ids ! k" using s k by simp
  moreover have "(last ?ids # butlast ?ids) ! k \<noteq> ?ids ! k"
    using d n k by (intro rotation_moves_every_element) simp_all
  ultimately show ?thesis by simp
qed

lemma participants_distinct:
  "distinct (map user_id us) \<Longrightarrow> distinct (map user_id (findUsers us eventId))"
  by (simp add: findUsers_def distinct_map_filter)

subsection \<open>Success and failure of a run\<close>

lemmas session_defs =
  Event_findById_def User_find_def Assignment_deleteMany_def Assignment_insertMany_def
  Event_save_def reading_def writing_def startTransaction_def commitTransaction_def
  abortTransaction_def endSession_def

lemma transactionBody_success:
  assumes "transactionBody fails eventId p srv = (Inr (), p', srv')"
    and w: "working srv = Some s"
  shows "\<exists>ev rnd1.
      findById (events s) eventId = Some ev
    \<and> 2 \<le> length (findUsers (users s) eventId)
    \<and> (valid_rng (random p) \<longrightarrow> valid_rng rnd1)
    \<and> srv' = \<lparr>committed = s\<lparr>assignments := deleteMany (assignments s) eventId
                 @ newAssignments (nextObjectId p) eventId (findUsers (users s) eventId)
                     (fst (shuffleArray (map Suc [0..<length (findUsers (users s) eventId)]) rnd1)),
               events := saveStatus (events s) eventId Assigned\<rparr>, working = None\<rparr>
    \<and> nextObjectId p' = nextObjectId p + length (findUsers (users s) eventId)"
proof -
  define ps where "ps = findUsers (users s) eventId"
  define numbers where "numbers = map Suc [0..<length ps]"
  from assms obtain ev where ev: "findById (events s) eventId = Some ev"
    by (auto simp: transactionBody_def session_defs split: if_splits option.splits)
  from assms have n: "2 \<le> length ps"
    by (auto simp: transactionBody_def session_defs ps_def Let_def
             split: if_splits option.splits)
  from generateDerangement_result [OF n, of 1000 "random p"] obtain rnd1 where
    gen: "generateDerangement ps 1000 (random p) = (Inr (last ps # butlast ps), rnd1)"
    and v: "valid_rng (random p) \<longrightarrow> valid_rng rnd1" by blast
  obtain shuffledNumbers rnd2 where sh: "shuffleArray numbers rnd1 = (shuffledNumbers, rnd2)"
    by (cases "shuffleArray numbers rnd1") auto
  then have shn: "fst (shuffleArray numbers rnd1) = shuffledNumbers" by simp
  then have len: "length shuffledNumbers = length ps"
    using shuffleArray_length [of numbers rnd1] by (simp add: numbers_def)
  from n have "0 + length ps \<le> length (last ps # butlast ps)" by simp
  from buildAssignments_rows [OF this, of eventId shuffledNumbers]
  have "buildAssignments eventId ps (last ps # butlast ps) shuffledNumbers 0 =
      Inr (map (\<lambda>k. (eventId, user_id (ps ! k), user_id ((last ps # butlast ps) ! k),
                     elemAt shuffledNumbers k)) [0..<length ps])" by simp
  also have "map (\<lambda>k. (eventId, user_id (ps ! k), user_id ((last ps # butlast ps) ! k),
                     elemAt shuffledNumbers k)) [0..<length ps]
      = map (\<lambda>k. (eventId, user_id (ps ! k), user_id ((last ps # butlast ps) ! k),
                     Some (shuffledNumbers ! k))) [0..<length ps]"
    using len by (simp add: elemAt_def)
  finally have rows: "buildAssignments eventId ps (last ps # butlast ps) shuffledNumbers 0 =
      Inr (map (\<lambda>k. (eventId, user_id (ps ! k), user_id ((last ps # butlast ps) ! k),
                     Some (shuffledNumbers ! k))) [0..<length ps])" .
  have docs: "makeDocs (nextObjectId p)
       (map (\<lambda>k. (eventId, user_id (ps ! k), user_id ((last ps # butlast ps) ! k),
                     Some (shuffledNumbers ! k))) [0..<length ps])
     = Inr (newAssignments (nextObjectId p) eventId ps shuffledNumbers)"
    unfolding newAssignments_def by (rule makeDocs_docs)
  have nolt: "\<not> length ps < 2" using n by simp
  from assms ev nolt gen sh [unfolded numbers_def] rows docs have
    "\<exists>coll. insertDocs (deleteMany (assignments s) eventId)
               (newAssignments (nextObjectId p) eventId ps shuffledNumbers) = Inr coll
          \<and> srv' = \<lparr>committed = s\<lparr>assignments := coll,
                                   events := saveStatus (events s) eventId Assigned\<rparr>,
                     working = None\<rparr>
          \<and> nextObjectId p' = nextObjectId p + length ps"
    by (auto simp: transactionBody_def session_defs insertMany_def Let_def ps_def [symmetric]
             split: if_splits sum.splits)
  then obtain coll where
    ins: "insertDocs (deleteMany (assignments s) eventId)
               (newAssignments (nextObjectId p) eventId ps shuffledNumbers) = Inr coll"
    and s': "srv' = \<lparr>committed = s\<lparr>assignments := coll,
                                   events := saveStatus (events s) eventId Assigned\<rparr>,
                     working = None\<rparr>"
    and p': "nextObjectId p' = nextObjectId p + length ps" by blast
  from insertDocs_appends [OF ins] s'
  have "srv' = \<lparr>committed = s\<lparr>assignments := deleteMany (assignments s) eventId
                 @ newAssignments (nextObjectId p) eventId ps
                     (fst (shuffleArray (map Suc [0..<length ps]) rnd1)),
               events := saveStatus (events s) eventId Assigned\<rparr>, working = None\<rparr>"
    using shn by (simp add: numbers_def)
  with ev n v p' show ?thesis unfolding ps_def by blast
qed

text \<open>
  While the transaction is open, the calls of the body change its view only: when the
  body throws, the committed collections are the ones it started from.
\<close>

lemma writing_in_transaction:
  assumes "working srv = Some w"
  shows "writing Session f srv = srv\<lparr>working := Some (f w)\<rparr>"
  using assms by (simp add: writing_def)

lemma transactionBody_failure:
  assumes "transactionBody fails eventId p srv = (Inl err, p', srv')"
    and w: "working srv = Some s"
  shows "committed srv' = committed srv"
  using assms
  by (auto simp: transactionBody_def session_defs Let_def
           split: if_splits option.splits sum.splits prod.splits)

lemma assignSecretSantaOn_body:
  assumes "assignSecretSantaOn fails eventId p srv = (Inr (), p', srv')"
  shows "\<exists>srv1. transactionBody fails eventId p (startTransaction srv) = (Inr (), p', srv1)
          \<and> srv' = endSession srv1"
  using assms
  by (auto simp: assignSecretSantaOn_def split: if_splits prod.splits sum.splits)

lemma assignSecretSanta_success:
  assumes "assignSecretSanta fails eventId p s = (Inr (), p', s')"
  shows "\<exists>ev rnd1.
      findById (events s) eventId = Some ev
    \<and> 2 \<le> length (findUsers (users s) eventId)
    \<and> (valid_rng (random p) \<longrightarrow> valid_rng rnd1)
    \<and> s' = s\<lparr>assignments := deleteMany (assignments s) eventId
                 @ newAssignments (nextObjectId p) eventId (findUsers (users s) eventId)
                     (fst (shuffleArray (map Suc [0..<length (findUsers (users s) eventId)]) rnd1)),
               events := saveStatus (events s) eventId Assigned\<rparr>
    \<and> nextObjectId p' = nextObjectId p + length (findUsers (users s) eventId)"
proof -
  let ?srv = "\<lparr>committed = s, working = None\<rparr>"
  from assms obtain srv' where on:
    "assignSecretSantaOn fails eventId p ?srv = (Inr (), p', srv')" and c: "s' = committed srv'"
    by (auto simp: assignSecretSanta_def split: prod.splits)
  from assignSecretSantaOn_body [OF on] obtain srv1 where
    body: "transactionBody fails eventId p (startTransaction ?srv) = (Inr (), p', srv1)"
    and e: "srv' = endSession srv1" by blast
  have w: "working (startTransaction ?srv) = Some s" by (simp add: startTransaction_def)
  from transactionBody_success [OF body w] c e show ?thesis
    by (auto simp: endSession_def)
qed

lemma assignSecretSanta_failure:
  assumes "assignSecretSanta fails eventId p s = (Inl err, p', s')"
  shows "s' = s"
proof -
  let ?srv = "\<lparr>committed = s, working = None\<rparr>"
  from assms obtain srv' where on:
    "assignSecretSantaOn fails eventId p ?srv = (Inl err, p', srv')" and c: "s' = committed srv'"
    by (auto simp: assignSecretSanta_def split: prod.splits)
  show ?thesis
  proof (cases "fails StartSession")
    case True
    with on c show ?thesis by (auto simp: assignSecretSantaOn_def)
  next
    case False
    obtain out q srv1 where
      body: "transactionBody fails eventId p (startTransaction ?srv) = (out, q, srv1)"
      by (cases "transactionBody fails eventId p (startTransaction ?srv)") auto
    have w: "working (startTransaction ?srv) = Some s" by (simp add: startTransaction_def)
    from on False body obtain err0 where out: "out = Inl err0"
      and srv': "committed srv' = committed srv1"
      by (cases out) (auto simp: assignSecretSantaOn_def endSession_def abortTransaction_def
                           split: if_splits)
    from transactionBody_failure [OF body [unfolded out] w]
    have "committed srv1 = s" by (simp add: startTransaction_def)
    with srv' c show ?thesis by simp
  qed
qed

lemma successful_run_rows:
  assumes run: "assignSecretSanta fails eventId p s = (Inr (), p', s')"
  shows "\<exists>numbers.
      2 \<le> length (findUsers (users s) eventId)
    \<and> users s' = users s
    \<and> events s' = saveStatus (events s) eventId Assigned
    \<and> assignments s' = deleteMany (assignments s) eventId
          @ newAssignments (nextObjectId p) eventId (findUsers (users s) eventId) numbers
    \<and> eventAssignments s' eventId
          = newAssignments (nextObjectId p) eventId (findUsers (users s) eventId) numbers
    \<and> length numbers = length (findUsers (users s) eventId)
    \<and> (valid_rng (random p) \<longrightarrow>
          mset numbers = mset [1..<Suc (length (findUsers (users s) eventId))])
    \<and> nextObjectId p' = nextObjectId p + length (findUsers (users s) eventId)"
proof -
  let ?ps = "findUsers (users s) eventId"
  from assignSecretSanta_success [OF run] obtain rnd1 where
    n: "2 \<le> length ?ps"
    and v: "valid_rng (random p) \<longrightarrow> valid_rng rnd1"
    and s': "s' = s\<lparr>assignments := deleteMany (assignments s) eventId
                 @ newAssignments (nextObjectId p) eventId ?ps
                     (fst (shuffleArray (map Suc [0..<length ?ps]) rnd1)),
               events := saveStatus (events s) eventId Assigned\<rparr>"
    and p': "nextObjectId p' = nextObjectId p + length ?ps"
    by blast
  let ?numbers = "fst (shuffleArray (map Suc [0..<length ?ps]) rnd1)"
  have "users s' = users s" by (simp add: s')
  moreover have "events s' = saveStatus (events s) eventId Assigned" by (simp add: s')
  moreover have "assignments s' = deleteMany (assignments s) eventId
            @ newAssignments (nextObjectId p) eventId ?ps ?numbers" by (simp add: s')
  moreover have "eventAssignments s' eventId
            = newAssignments (nextObjectId p) eventId ?ps ?numbers"
    by (simp add: eventAssignments_def s' eventAssignments_replaced del: filter_append)
  moreover have "length ?numbers = length ?ps" by (simp add: shuffleArray_length)
  moreover have "valid_rng (random p) \<longrightarrow> mset ?numbers = mset [1..<Suc (length ?ps)]"
    using v by (simp add: shuffled_numbers)
  ultimately show ?thesis using n p' by blast
qed

lemma transactionBody_no_faults:
  assumes "transactionBody fails eventId p srv = (Inr (), p', srv')"
  shows "\<not> fails FindEvent \<and> \<not> fails FindUsers \<and> \<not> fails DeleteMany
       \<and> \<not> fails InsertMany \<and> \<not> fails SaveEvent \<and> \<not> fails Commit"
  using assms
  by (auto simp: transactionBody_def Assignment_insertMany_def insertMany_def Let_def
           split: if_splits option.splits sum.splits prod.splits)

lemma success_no_faults:
  assumes "assignSecretSanta fails eventId p s = (Inr (), p', s')"
    and "st \<noteq> Abort"
  shows "\<not> fails st"
proof -
  let ?srv = "\<lparr>committed = s, working = None\<rparr>"
  from assms(1) obtain srv' where on:
    "assignSecretSantaOn fails eventId p ?srv = (Inr (), p', srv')"
    by (auto simp: assignSecretSanta_def split: prod.splits)
  then have a: "\<not> fails StartSession"
    by (auto simp: assignSecretSantaOn_def split: if_splits)
  from assignSecretSantaOn_body [OF on] obtain srv1 where
    b: "transactionBody fails eventId p (startTransaction ?srv) = (Inr (), p', srv1)"
    by blast
  from transactionBody_no_faults [OF b] a assms(2) show ?thesis by (cases st) simp_all
qed

text \<open>
  What carrying the session is for: the same delete without the session, while the
  transaction is open, changes the committed collection at once.
\<close>

lemma deleteMany_outside_session:
  "committed (Assignment_deleteMany NoSession eventId (startTransaction srv))
     = (committed srv)\<lparr>assignments := deleteMany (assignments (committed srv)) eventId\<rparr>"
  by (simp add: Assignment_deleteMany_def writing_def startTransaction_def)

lemma deleteMany_in_session:
  "committed (Assignment_deleteMany Session eventId (startTransaction srv)) = committed srv"
  by (simp add: Assignment_deleteMany_def writing_def startTransaction_def)

lemma assignSecretSanta_succeeds:
  assumes nofault: "\<forall>st. \<not> fails st"
    and ev: "findById (events s) eventId = Some ev"
    and n: "2 \<le> length (findUsers (users s) eventId)"
    and ids: "distinct (map user_id (users s))"
    and rng: "valid_rng (random p)"
  shows "\<exists>p' s'. assignSecretSanta fails eventId p s = (Inr (), p', s')"
proof -
  define ps where "ps = findUsers (users s) eventId"
  define numbers where "numbers = map Suc [0..<length ps]"
  from n have n': "2 \<le> length ps" and nolt: "\<not> length ps < 2" by (simp_all add: ps_def)
  then have ne: "ps \<noteq> []" by auto
  from generateDerangement_result [OF n', of 1000 "random p"] rng obtain rnd1 where
    gen: "generateDerangement ps 1000 (random p) = (Inr (last ps # butlast ps), rnd1)"
    and v: "valid_rng rnd1" by blast
  obtain shuffledNumbers rnd2 where sh: "shuffleArray numbers rnd1 = (shuffledNumbers, rnd2)"
    by (cases "shuffleArray numbers rnd1") auto
  then have shn: "fst (shuffleArray numbers rnd1) = shuffledNumbers" by simp
  then have len: "length shuffledNumbers = length ps"
    using shuffleArray_length [of numbers rnd1] by (simp add: numbers_def)
  have perm: "mset shuffledNumbers = mset [1..<Suc (length ps)]"
    using shuffled_numbers [OF v, of "length ps"] shn by (simp add: numbers_def)
  from n' have "0 + length ps \<le> length (last ps # butlast ps)" by simp
  from buildAssignments_rows [OF this, of eventId shuffledNumbers]
  have "buildAssignments eventId ps (last ps # butlast ps) shuffledNumbers 0 =
      Inr (map (\<lambda>k. (eventId, user_id (ps ! k), user_id ((last ps # butlast ps) ! k),
                     elemAt shuffledNumbers k)) [0..<length ps])" by simp
  also have "map (\<lambda>k. (eventId, user_id (ps ! k), user_id ((last ps # butlast ps) ! k),
                     elemAt shuffledNumbers k)) [0..<length ps]
      = map (\<lambda>k. (eventId, user_id (ps ! k), user_id ((last ps # butlast ps) ! k),
                     Some (shuffledNumbers ! k))) [0..<length ps]"
    using len by (simp add: elemAt_def)
  finally have rows: "buildAssignments eventId ps (last ps # butlast ps) shuffledNumbers 0 =
      Inr (map (\<lambda>k. (eventId, user_id (ps ! k), user_id ((last ps # butlast ps) ! k),
                     Some (shuffledNumbers ! k))) [0..<length ps])" .
  let ?new = "newAssignments (nextObjectId p) eventId ps shuffledNumbers"
  have docs: "makeDocs (nextObjectId p)
       (map (\<lambda>k. (eventId, user_id (ps ! k), user_id ((last ps # butlast ps) ! k),
                     Some (shuffledNumbers ! k))) [0..<length ps])
     = Inr ?new"
    unfolding newAssignments_def by (rule makeDocs_docs)
  have dps: "distinct (map user_id ps)"
    unfolding ps_def using ids by (rule participants_distinct)
  have "mset (map user_id (last ps # butlast ps)) = mset (map user_id ps)"
    using rotation_mset [OF ne] by (metis mset_map)
  then have "distinct (map user_id (last ps # butlast ps)) = distinct (map user_id ps)"
    by (rule mset_eq_imp_distinct_iff)
  with dps have d2: "distinct (map receiverUserId ?new)"
    by (simp only: newAssignments_receivers [OF ne])
  have d1: "distinct (map santaUserId ?new)"
    using dps by (simp only: newAssignments_santas)
  have "distinct shuffledNumbers = distinct [1..<Suc (length ps)]"
    using perm by (rule mset_eq_imp_distinct_iff)
  then have d3: "distinct (map receiverNumber ?new)"
    by (simp only: newAssignments_numbers [OF len]) simp
  have sep: "\<forall>a \<in> set (deleteMany (assignments s) eventId). \<forall>d \<in> set ?new.
             assignment_eventId a = assignment_eventId d \<longrightarrow>
               receiverNumber a \<noteq> receiverNumber d \<and> santaUserId a \<noteq> santaUserId d
             \<and> receiverUserId a \<noteq> receiverUserId d"
    by (auto simp: deleteMany_def dest: newAssignments_event)
  have ins: "insertDocs (deleteMany (assignments s) eventId) ?new
               = Inr (deleteMany (assignments s) eventId @ ?new)"
    using sep d1 d2 d3 by (rule insertDocs_without_duplicates)
  from nofault ev nolt gen sh [unfolded numbers_def] rows docs ins show ?thesis
    by (simp add: assignSecretSanta_def assignSecretSantaOn_def transactionBody_def
          session_defs insertMany_def Let_def ps_def [symmetric])
qed

subsection \<open>Runs on the concrete store\<close>

lemmas example_defs =
  exampleStore_def exampleUsers_def exampleEvents_def exampleProc_def noFaults_def
  participant_def

lemmas run_defs =
  assignSecretSanta_def assignSecretSantaOn_def transactionBody_def session_defs
  findById_def findUsers_def deleteMany_def
  insertMany_def duplicateKey_def saveStatus_def shuffleArray_def Math_random_def
  elemAt_def Let_def

lemma example_run_three:
  "assignSecretSanta noFaults 7 exampleProc exampleStore =
     (Inr (), exampleProc\<lparr>nextObjectId := 103\<rparr>, exampleAssigned)"
  by (simp add: run_defs example_defs exampleAssigned_def generateDerangement_constant_rng
        numeral_2_eq_2)

lemma example_run_two:
  "assignSecretSanta noFaults 9 exampleProc exampleStore =
     (Inr (), exampleProc\<lparr>nextObjectId := 102\<rparr>, exampleAssignedPair)"
  by (simp add: run_defs example_defs exampleAssignedPair_def generateDerangement_def)

lemma example_rerun:
  "assignSecretSanta noFaults 7 (exampleProc\<lparr>nextObjectId := 103\<rparr>) exampleAssigned =
     (Inr (), exampleProc\<lparr>nextObjectId := 106\<rparr>, exampleReassigned)"
  by (simp add: run_defs example_defs exampleAssigned_def exampleReassigned_def
        generateDerangement_constant_rng numeral_2_eq_2)

lemma example_run_insert_fault:
  "assignSecretSanta insertFault 7 exampleProc exampleAssigned =
     (Inl (StoreFailure InsertMany), exampleProc\<lparr>nextObjectId := 103\<rparr>, exampleAssigned)"
  by (simp add: run_defs example_defs exampleAssigned_def insertFault_def
        generateDerangement_constant_rng numeral_2_eq_2)

lemma example_run_abort_fault:
  "assignSecretSanta insertAbortFault 7 exampleProc exampleAssigned =
     (Inl (StoreFailure Abort), exampleProc\<lparr>nextObjectId := 103\<rparr>, exampleAssigned)"
  by (simp add: run_defs example_defs exampleAssigned_def insertAbortFault_def
        generateDerangement_constant_rng numeral_2_eq_2)

lemma example_run_lonely:
  "assignSecretSanta noFaults 10 exampleProc exampleStore =
     (Inl InsufficientParticipants, exampleProc, exampleStore)"
  by (simp add: run_defs example_defs)

subsection \<open>What a run leaves in the store\<close>

text \<open>
  C1. When the assignment operation succeeds on a store whose users have distinct
  identifiers, the event has at least two participants, it has exactly one assignment
  row per participant, the santa references and the receiver references of these rows
  are each, as multisets, the participants' identifiers, and no row has its santa as
  its receiver. The users collection is not touched.
\<close>

theorem assignment_complete_without_self_gifting:
  assumes run: "assignSecretSanta fails eventId p s = (Inr (), p', s')"
    and ids: "distinct (map user_id (users s))"
  shows "users s' = users s
       \<and> 2 \<le> length (findUsers (users s) eventId)
       \<and> length (eventAssignments s' eventId) = length (findUsers (users s) eventId)
       \<and> mset (map santaUserId (eventAssignments s' eventId))
           = mset (map user_id (findUsers (users s) eventId))
       \<and> mset (map receiverUserId (eventAssignments s' eventId))
           = mset (map user_id (findUsers (users s) eventId))
       \<and> (\<forall>a \<in> set (eventAssignments s' eventId). santaUserId a \<noteq> receiverUserId a)"
proof -
  let ?ps = "findUsers (users s) eventId"
  from assignSecretSanta_success [OF run] obtain rnd1 where
    n: "2 \<le> length ?ps"
    and s': "s' = s\<lparr>assignments := deleteMany (assignments s) eventId
                 @ newAssignments (nextObjectId p) eventId ?ps
                     (fst (shuffleArray (map Suc [0..<length ?ps]) rnd1)),
               events := saveStatus (events s) eventId Assigned\<rparr>"
    by blast
  let ?new = "newAssignments (nextObjectId p) eventId ?ps
                (fst (shuffleArray (map Suc [0..<length ?ps]) rnd1))"
  from n have ne: "?ps \<noteq> []" by auto
  have rows: "eventAssignments s' eventId = ?new"
    by (simp add: eventAssignments_def s' eventAssignments_replaced del: filter_append)
  have "mset (map user_id (last ?ps # butlast ?ps)) = mset (map user_id ?ps)"
    using rotation_mset [OF ne] by (metis mset_map)
  then have rec: "mset (map receiverUserId ?new) = mset (map user_id ?ps)"
    by (simp only: newAssignments_receivers [OF ne])
  have self: "\<forall>a \<in> set ?new. santaUserId a \<noteq> receiverUserId a"
    using newAssignments_no_self [OF participants_distinct [OF ids] n] by blast
  show ?thesis
    using n rec self by (simp add: rows newAssignments_santas) (simp add: s')
qed

theorem assignment_complete_without_self_gifting_witness:
  "assignSecretSanta noFaults 7 exampleProc exampleStore
     = (Inr (), exampleProc\<lparr>nextObjectId := 103\<rparr>, exampleAssigned)
   \<and> distinct (map user_id (users exampleStore))
   \<and> map user_id (findUsers (users exampleStore) 7) = [1, 2, 3]
   \<and> length (eventAssignments exampleAssigned 7) = 3
   \<and> mset (map santaUserId (eventAssignments exampleAssigned 7)) = mset [1, 2, 3]
   \<and> mset (map receiverUserId (eventAssignments exampleAssigned 7)) = mset [1, 2, 3]
   \<and> list_all (\<lambda>a. santaUserId a \<noteq> receiverUserId a) (eventAssignments exampleAssigned 7)"
proof -
  have d: "distinct (map user_id (users exampleStore))"
    by (simp add: example_defs)
  have ps: "map user_id (findUsers (users exampleStore) 7) = [1, 2, 3]"
    by (simp add: example_defs findUsers_def)
  then have "length (findUsers (users exampleStore) 7) = 3"
    by (metis length_map length_Cons list.size(3) numeral_3_eq_3)
  with assignment_complete_without_self_gifting [OF example_run_three d] ps d example_run_three
  show ?thesis by (simp add: list_all_iff)
qed

text \<open>
  C5. After a successful run with a valid random source, the receiver numbers stored
  for the event are a permutation of \<open>1, \<dots>, N\<close> for the \<open>N\<close> participants: as a
  set they are exactly \<open>{1..N}\<close> and no number occurs twice. More generally, with
  a valid random source \<open>shuffleArray\<close> returns a permutation of its input, so
  shuffling \<open>1, \<dots>, n\<close> gives each of these numbers exactly once.
\<close>

theorem receiver_numbers_one_to_N:
  assumes run: "assignSecretSanta fails eventId p s = (Inr (), p', s')"
    and rng: "valid_rng (random p)"
  shows "set (map receiverNumber (eventAssignments s' eventId))
           = {1..length (findUsers (users s) eventId)}
       \<and> distinct (map receiverNumber (eventAssignments s' eventId))
       \<and> length (eventAssignments s' eventId) = length (findUsers (users s) eventId)
       \<and> mset (fst (shuffleArray xs (random p))) = mset xs
       \<and> set (fst (shuffleArray (map (\<lambda>i. i + 1) [0..<n]) (random p))) = {1..n}
       \<and> distinct (fst (shuffleArray (map (\<lambda>i. i + 1) [0..<n]) (random p)))"
proof -
  let ?ps = "findUsers (users s) eventId"
  from successful_run_rows [OF run] obtain numbers where all:
    "2 \<le> length ?ps
    \<and> users s' = users s
    \<and> events s' = saveStatus (events s) eventId Assigned
    \<and> assignments s' = deleteMany (assignments s) eventId
          @ newAssignments (nextObjectId p) eventId ?ps numbers
    \<and> eventAssignments s' eventId = newAssignments (nextObjectId p) eventId ?ps numbers
    \<and> length numbers = length ?ps
    \<and> (valid_rng (random p) \<longrightarrow> mset numbers = mset [1..<Suc (length ?ps)])
    \<and> nextObjectId p' = nextObjectId p + length ?ps" ..
  then have rows: "eventAssignments s' eventId
                     = newAssignments (nextObjectId p) eventId ?ps numbers"
    and len: "length numbers = length ?ps"
    and perm: "valid_rng (random p) \<longrightarrow> mset numbers = mset [1..<Suc (length ?ps)]"
    by simp_all
  have nums: "map receiverNumber (eventAssignments s' eventId) = numbers"
    by (simp add: rows newAssignments_numbers [OF len])
  from perm rng have m: "mset numbers = mset [1..<Suc (length ?ps)]" by simp
  have "set numbers = set [1..<Suc (length ?ps)]" using m by (rule mset_eq_setD)
  then have a: "set numbers = {1..length ?ps}"
    by (simp only: set_upt atLeastLessThanSuc_atLeastAtMost)
  have "distinct numbers = distinct [1..<Suc (length ?ps)]"
    using m by (rule mset_eq_imp_distinct_iff)
  then have b: "distinct numbers" by simp
  let ?sh = "fst (shuffleArray (map (\<lambda>i. i + 1) [0..<n]) (random p))"
  have sm: "mset ?sh = mset [1..<Suc n]" using shuffled_numbers [OF rng, of n] by simp
  have "set ?sh = set [1..<Suc n]" using sm by (rule mset_eq_setD)
  then have c: "set ?sh = {1..n}"
    by (simp only: set_upt atLeastLessThanSuc_atLeastAtMost)
  have "distinct ?sh = distinct [1..<Suc n]" using sm by (rule mset_eq_imp_distinct_iff)
  then have d: "distinct ?sh" by simp
  have A: "set (map receiverNumber (eventAssignments s' eventId)) = {1..length ?ps}"
    unfolding nums by (rule a)
  have B: "distinct (map receiverNumber (eventAssignments s' eventId))"
    unfolding nums by (rule b)
  have C: "length (eventAssignments s' eventId) = length ?ps" by (simp add: rows)
  have D: "mset (fst (shuffleArray xs (random p))) = mset xs"
    by (rule shuffleArray_mset [OF rng])
  from A B C D c d show ?thesis by (intro conjI)
qed

theorem receiver_numbers_one_to_N_witness:
  "assignSecretSanta noFaults 7 exampleProc exampleStore
     = (Inr (), exampleProc\<lparr>nextObjectId := 103\<rparr>, exampleAssigned)
   \<and> valid_rng (random exampleProc)
   \<and> length (findUsers (users exampleStore) 7) = 3
   \<and> set (map receiverNumber (eventAssignments exampleAssigned 7)) = {1..3}
   \<and> distinct (map receiverNumber (eventAssignments exampleAssigned 7))"
proof -
  have v: "valid_rng (random exampleProc)"
    by (simp add: exampleProc_def valid_rng_def)
  have n: "length (findUsers (users exampleStore) 7) = 3"
    by (simp add: example_defs findUsers_def)
  note t = receiver_numbers_one_to_N
             [OF example_run_three v, where xs = "[]" and n = 0, unfolded n]
  from t have "set (map receiverNumber (eventAssignments exampleAssigned 7)) = {1..3}"
    and "distinct (map receiverNumber (eventAssignments exampleAssigned 7))"
    by blast+
  with v n example_run_three show ?thesis by blast
qed

text \<open>
  C8. For an input of exactly two elements \<open>[a, b]\<close> the generator returns the swap
  \<open>[b, a]\<close>, whatever the retry bound and the random source are, and it draws no
  random number on the way. Hence a successful run on an event whose participants
  are \<open>[A, B]\<close> stores exactly the pairs \<open>A \<rightarrow> B\<close> and \<open>B \<rightarrow> A\<close>.
\<close>

theorem two_participants_swap:
  "generateDerangement [a, b] maxAttempts rnd = (Inr [b, a], rnd)
   \<and> (findUsers (users s) eventId = [A, B]
        \<longrightarrow> assignSecretSanta fails eventId p s = (Inr (), p', s')
        \<longrightarrow> map (\<lambda>r. (santaUserId r, receiverUserId r)) (eventAssignments s' eventId)
              = [(user_id A, user_id B), (user_id B, user_id A)])"
proof (intro conjI impI)
  show "generateDerangement [a, b] maxAttempts rnd = (Inr [b, a], rnd)"
    by (simp add: generateDerangement_def)
next
  assume ps: "findUsers (users s) eventId = [A, B]"
    and run: "assignSecretSanta fails eventId p s = (Inr (), p', s')"
  from successful_run_rows [OF run] ps obtain numbers where
    "eventAssignments s' eventId = newAssignments (nextObjectId p) eventId [A, B] numbers"
    by auto
  then show "map (\<lambda>r. (santaUserId r, receiverUserId r)) (eventAssignments s' eventId)
              = [(user_id A, user_id B), (user_id B, user_id A)]"
    by (simp add: newAssignments_def upt_conv_Cons del: upt_Suc)
qed

theorem two_participants_swap_witness:
  "map user_id (findUsers (users exampleStore) 9) = [5, 6]
   \<and> assignSecretSanta noFaults 9 exampleProc exampleStore
       = (Inr (), exampleProc\<lparr>nextObjectId := 102\<rparr>, exampleAssignedPair)
   \<and> map (\<lambda>r. (santaUserId r, receiverUserId r)) (eventAssignments exampleAssignedPair 9)
       = [(5, 6), (6, 5)]"
proof -
  have ps: "findUsers (users exampleStore) 9 =
      [participant 5 ''User1'' ''user1@test.com'' ''tea'' (Some 9),
       participant 6 ''User2'' ''user2@test.com'' ''pens'' (Some 9)]"
    by (simp add: exampleStore_def exampleUsers_def findUsers_def participant_def)
  note t = two_participants_swap
    [where s = exampleStore and eventId = 9 and fails = noFaults and p = exampleProc
       and p' = "exampleProc\<lparr>nextObjectId := 102\<rparr>" and s' = exampleAssignedPair
       and A = "participant 5 ''User1'' ''user1@test.com'' ''tea'' (Some 9)"
       and B = "participant 6 ''User2'' ''user2@test.com'' ''pens'' (Some 9)"
       and a = "0 :: nat" and b = 1 and maxAttempts = 1000 and rnd = "\<lambda>k. 0"]
  from t ps example_run_two
  have "map (\<lambda>r. (santaUserId r, receiverUserId r)) (eventAssignments exampleAssignedPair 9)
       = [(5, 6), (6, 5)]"
    by (simp add: participant_def)
  with ps example_run_two show ?thesis by (simp add: participant_def)
qed

text \<open>
  C9. For an existing event with fewer than two linked participants the operation
  fails and leaves the store, hence any earlier assignment rows of the event, as it
  was. The error is \<open>InsufficientParticipants\<close> unless one of the store calls made
  before the participant check (starting the session, loading the event, loading the
  participants) itself fails, or \<^verbatim>\<open>abortTransaction\<close> throws in the \<^verbatim>\<open>catch\<close>. The
  generator rejects such a participant list with the same error.
\<close>

theorem too_few_participants_rejected:
  assumes ev: "findById (events s) eventId = Some ev"
    and few: "length (findUsers (users s) eventId) < 2"
  shows "assignSecretSanta fails eventId p s =
           (Inl (if fails StartSession then StoreFailure StartSession
                 else if fails Abort then StoreFailure Abort
                 else if fails FindEvent then StoreFailure FindEvent
                 else if fails FindUsers then StoreFailure FindUsers
                 else InsufficientParticipants), p, s)
       \<and> generateDerangement (findUsers (users s) eventId) maxAttempts rnd
           = (Inl InsufficientParticipants, rnd)"
  using ev few
  by (simp add: assignSecretSanta_def assignSecretSantaOn_def transactionBody_def
        session_defs generateDerangement_def)

theorem too_few_participants_rejected_witness:
  "findById (events exampleStore) 10 = Some \<lparr>event_id = 10, event_name = ''Tiny Event'',
       budgetLimit = 25, registrationDeadline = 86400000, status = Open\<rparr>
   \<and> length (findUsers (users exampleStore) 10) = 1
   \<and> assignSecretSanta noFaults 10 exampleProc exampleStore
       = (Inl InsufficientParticipants, exampleProc, exampleStore)"
proof -
  have a: "findById (events exampleStore) 10 = Some \<lparr>event_id = 10, event_name = ''Tiny Event'',
       budgetLimit = 25, registrationDeadline = 86400000, status = Open\<rparr>"
    by (simp add: example_defs findById_def)
  have b: "length (findUsers (users exampleStore) 10) = 1"
    by (simp add: example_defs findUsers_def)
  then have c: "length (findUsers (users exampleStore) 10) < 2" by simp
  from too_few_participants_rejected [OF a c, of noFaults exampleProc 1000 "\<lambda>k. 0"] a b
  show ?thesis by (simp add: noFaults_def)
qed

text \<open>
  C4. All or nothing. If the assignment operation ends with an error, whichever call
  threw it, the committed store after the call is the store before it: the event's
  status and the assignment rows that existed for the event are as before. This
  rests on every store call of the body carrying the session, and it also holds when
  \<^verbatim>\<open>abortTransaction\<close> itself throws in the \<^verbatim>\<open>catch\<close>. A missing event, fewer than
  two participants and a failure of any store call the run makes each end it with an
  error. If it succeeds, all three changes are committed: the rows the event had are
  gone and its rows are exactly the new documents, one per participant in order, with
  the fresh identifiers; the rows of other events and the users are kept; and the
  event, and no other, has status \<open>assigned\<close>.
\<close>

theorem failed_assignment_leaves_store_unchanged:
  assumes run: "assignSecretSanta fails eventId p s = (outcome, p', s')"
  shows "(\<forall>err. outcome = Inl err \<longrightarrow>
            s' = s \<and> events s' = events s
          \<and> eventAssignments s' eventId = eventAssignments s eventId)
       \<and> (findById (events s) eventId = None
            \<or> length (findUsers (users s) eventId) < 2
            \<or> (\<exists>st. st \<noteq> Abort \<and> fails st) \<longrightarrow> (\<exists>err. outcome = Inl err))
       \<and> (outcome = Inr () \<longrightarrow>
            users s' = users s
          \<and> filter (\<lambda>a. assignment_eventId a \<noteq> eventId) (assignments s')
              = filter (\<lambda>a. assignment_eventId a \<noteq> eventId) (assignments s)
          \<and> map assignment_id (eventAssignments s' eventId)
              = [nextObjectId p..<nextObjectId p + length (findUsers (users s) eventId)]
          \<and> map santaUserId (eventAssignments s' eventId)
              = map user_id (findUsers (users s) eventId)
          \<and> events s'
              = map (\<lambda>e. if event_id e = eventId then e\<lparr>status := Assigned\<rparr> else e)
                  (events s))"
proof (intro conjI allI impI)
  fix err assume "outcome = Inl err"
  with run show "s' = s" by (simp add: assignSecretSanta_failure)
  then show "events s' = events s"
    and "eventAssignments s' eventId = eventAssignments s eventId" by simp_all
next
  assume bad: "findById (events s) eventId = None
            \<or> length (findUsers (users s) eventId) < 2 \<or> (\<exists>st. st \<noteq> Abort \<and> fails st)"
  show "\<exists>err. outcome = Inl err"
  proof (cases outcome)
    case (Inl err)
    then show ?thesis by blast
  next
    case (Inr u)
    with run have ok: "assignSecretSanta fails eventId p s = (Inr (), p', s')" by simp
    from assignSecretSanta_success [OF ok] success_no_faults [OF ok] bad
    show ?thesis by auto
  qed
next
  assume "outcome = Inr ()"
  with run have ok: "assignSecretSanta fails eventId p s = (Inr (), p', s')" by simp
  let ?ps = "findUsers (users s) eventId"
  from successful_run_rows [OF ok] obtain numbers where all:
    "2 \<le> length ?ps
    \<and> users s' = users s
    \<and> events s' = saveStatus (events s) eventId Assigned
    \<and> assignments s' = deleteMany (assignments s) eventId
          @ newAssignments (nextObjectId p) eventId ?ps numbers
    \<and> eventAssignments s' eventId = newAssignments (nextObjectId p) eventId ?ps numbers
    \<and> length numbers = length ?ps
    \<and> (valid_rng (random p) \<longrightarrow> mset numbers = mset [1..<Suc (length ?ps)])
    \<and> nextObjectId p' = nextObjectId p + length ?ps" ..
  then have us: "users s' = users s"
    and evs: "events s' = saveStatus (events s) eventId Assigned"
    and coll: "assignments s' = deleteMany (assignments s) eventId
                 @ newAssignments (nextObjectId p) eventId ?ps numbers"
    and rows: "eventAssignments s' eventId
                 = newAssignments (nextObjectId p) eventId ?ps numbers"
    by simp_all
  show "users s' = users s" by (rule us)
  have "filter (\<lambda>a. assignment_eventId a \<noteq> eventId)
          (newAssignments (nextObjectId p) eventId ?ps numbers) = []"
    by (simp add: filter_empty_conv newAssignments_event)
  then show "filter (\<lambda>a. assignment_eventId a \<noteq> eventId) (assignments s')
              = filter (\<lambda>a. assignment_eventId a \<noteq> eventId) (assignments s)"
    by (simp add: coll deleteMany_def)
  show "map assignment_id (eventAssignments s' eventId)
          = [nextObjectId p..<nextObjectId p + length ?ps]"
    by (simp only: rows newAssignments_ids)
  show "map santaUserId (eventAssignments s' eventId) = map user_id ?ps"
    by (simp only: rows newAssignments_santas)
  show "events s'
          = map (\<lambda>e. if event_id e = eventId then e\<lparr>status := Assigned\<rparr> else e) (events s)"
    by (simp add: evs saveStatus_def)
qed

theorem failed_assignment_leaves_store_unchanged_witness:
  "assignSecretSanta insertFault 7 exampleProc exampleAssigned
     = (Inl (StoreFailure InsertMany), exampleProc\<lparr>nextObjectId := 103\<rparr>, exampleAssigned)
   \<and> assignSecretSanta insertAbortFault 7 exampleProc exampleAssigned
     = (Inl (StoreFailure Abort), exampleProc\<lparr>nextObjectId := 103\<rparr>, exampleAssigned)
   \<and> insertFault InsertMany
   \<and> map assignment_id (eventAssignments exampleAssigned 7) = [100, 101, 102]
   \<and> map status (events exampleAssigned) = [Assigned, Open, Open]
   \<and> assignSecretSanta noFaults 7 (exampleProc\<lparr>nextObjectId := 103\<rparr>) exampleAssigned
        = (Inr (), exampleProc\<lparr>nextObjectId := 106\<rparr>, exampleReassigned)
   \<and> map assignment_id (eventAssignments exampleReassigned 7) = [103, 104, 105]
   \<and> filter (\<lambda>a. assignment_eventId a \<noteq> 7) (assignments exampleReassigned)
        = filter (\<lambda>a. assignment_eventId a \<noteq> 7) (assignments exampleAssigned)
   \<and> map status (events exampleReassigned) = [Assigned, Open, Open]"
proof -
  have a: "insertFault InsertMany" by (simp add: insertFault_def)
  have b: "map assignment_id (eventAssignments exampleAssigned 7) = [100, 101, 102]"
    by (simp add: eventAssignments_def exampleAssigned_def)
  have c: "map status (events exampleAssigned) = [Assigned, Open, Open]"
    by (simp add: exampleAssigned_def exampleEvents_def saveStatus_def)
  have n: "length (findUsers (users exampleAssigned) 7) = 3"
    by (simp add: exampleAssigned_def example_defs findUsers_def)
  note t = failed_assignment_leaves_store_unchanged [OF example_rerun]
  from t n have d: "map assignment_id (eventAssignments exampleReassigned 7) = [103, 104, 105]"
    by (simp add: upt_conv_Cons del: upt_Suc)
  from t have e: "filter (\<lambda>a. assignment_eventId a \<noteq> 7) (assignments exampleReassigned)
        = filter (\<lambda>a. assignment_eventId a \<noteq> 7) (assignments exampleAssigned)"
    by simp
  from t have "events exampleReassigned
        = map (\<lambda>e. if event_id e = 7 then e\<lparr>status := Assigned\<rparr> else e)
            (events exampleAssigned)"
    by simp
  then have f: "map status (events exampleReassigned) = [Assigned, Open, Open]"
    by (simp add: exampleAssigned_def exampleEvents_def saveStatus_def)
  from example_run_insert_fault example_run_abort_fault a b c example_rerun d e f
  show ?thesis by (intro conjI)
qed

text \<open>
  C6. Two successful runs in a row on the same event, the second with a valid random
  source and with \<open>ObjectId\<close>s not used by the first: the participants are the same
  for both runs, the rows of the event after the second run are complete, free of
  self-assignments and numbered \<open>1, \<dots>, N\<close>, and no row that the event had after
  the first run is in the assignment collection after the second.
\<close>

theorem rerun_replaces_assignments:
  assumes run1: "assignSecretSanta fails1 eventId p0 s0 = (Inr (), p1, s1)"
    and run2: "assignSecretSanta fails2 eventId q1 s1 = (Inr (), p2, s2)"
    and ids: "distinct (map user_id (users s0))"
    and rng: "valid_rng (random q1)"
    and fresh: "nextObjectId p1 \<le> nextObjectId q1"
  shows "findUsers (users s1) eventId = findUsers (users s0) eventId
       \<and> length (eventAssignments s2 eventId) = length (findUsers (users s0) eventId)
       \<and> mset (map santaUserId (eventAssignments s2 eventId))
           = mset (map user_id (findUsers (users s0) eventId))
       \<and> mset (map receiverUserId (eventAssignments s2 eventId))
           = mset (map user_id (findUsers (users s0) eventId))
       \<and> (\<forall>a \<in> set (eventAssignments s2 eventId). santaUserId a \<noteq> receiverUserId a)
       \<and> mset (map receiverNumber (eventAssignments s2 eventId))
           = mset [1..<Suc (length (findUsers (users s0) eventId))]
       \<and> (\<forall>a \<in> set (eventAssignments s1 eventId). a \<notin> set (assignments s2))"
proof -
  let ?ps = "findUsers (users s0) eventId"
  from successful_run_rows [OF run1] obtain numbers1 where all1:
    "2 \<le> length ?ps
    \<and> users s1 = users s0
    \<and> events s1 = saveStatus (events s0) eventId Assigned
    \<and> assignments s1 = deleteMany (assignments s0) eventId
          @ newAssignments (nextObjectId p0) eventId ?ps numbers1
    \<and> eventAssignments s1 eventId = newAssignments (nextObjectId p0) eventId ?ps numbers1
    \<and> length numbers1 = length ?ps
    \<and> (valid_rng (random p0) \<longrightarrow> mset numbers1 = mset [1..<Suc (length ?ps)])
    \<and> nextObjectId p1 = nextObjectId p0 + length ?ps" ..
  then have n: "2 \<le> length ?ps" and us: "users s1 = users s0"
    and rows1: "eventAssignments s1 eventId
                  = newAssignments (nextObjectId p0) eventId ?ps numbers1"
    and next1: "nextObjectId p1 = nextObjectId p0 + length ?ps"
    by simp_all
  from successful_run_rows [OF run2] obtain numbers2 where all2:
    "2 \<le> length (findUsers (users s1) eventId)
    \<and> users s2 = users s1
    \<and> events s2 = saveStatus (events s1) eventId Assigned
    \<and> assignments s2 = deleteMany (assignments s1) eventId
          @ newAssignments (nextObjectId q1) eventId (findUsers (users s1) eventId) numbers2
    \<and> eventAssignments s2 eventId
          = newAssignments (nextObjectId q1) eventId (findUsers (users s1) eventId) numbers2
    \<and> length numbers2 = length (findUsers (users s1) eventId)
    \<and> (valid_rng (random q1) \<longrightarrow>
          mset numbers2 = mset [1..<Suc (length (findUsers (users s1) eventId))])
    \<and> nextObjectId p2 = nextObjectId q1 + length (findUsers (users s1) eventId)" ..
  with us rng have coll2: "assignments s2 = deleteMany (assignments s1) eventId
          @ newAssignments (nextObjectId q1) eventId ?ps numbers2"
    and rows2: "eventAssignments s2 eventId
                  = newAssignments (nextObjectId q1) eventId ?ps numbers2"
    and len2: "length numbers2 = length ?ps"
    and perm2: "mset numbers2 = mset [1..<Suc (length ?ps)]"
    by simp_all
  from n have ne: "?ps \<noteq> []" by auto
  have A: "findUsers (users s1) eventId = ?ps" by (simp add: us)
  have B: "length (eventAssignments s2 eventId) = length ?ps" by (simp add: rows2)
  have C: "mset (map santaUserId (eventAssignments s2 eventId)) = mset (map user_id ?ps)"
    by (simp only: rows2 newAssignments_santas)
  have D: "mset (map receiverUserId (eventAssignments s2 eventId)) = mset (map user_id ?ps)"
    unfolding rows2 using ne by (rule newAssignments_receivers_mset)
  have E: "\<forall>a \<in> set (eventAssignments s2 eventId). santaUserId a \<noteq> receiverUserId a"
    unfolding rows2 using newAssignments_no_self [OF participants_distinct [OF ids] n]
    by blast
  have F: "mset (map receiverNumber (eventAssignments s2 eventId))
             = mset [1..<Suc (length ?ps)]"
    by (simp only: rows2 newAssignments_numbers [OF len2] perm2)
  have G: "\<forall>a \<in> set (eventAssignments s1 eventId). a \<notin> set (assignments s2)"
  proof
    fix a assume a: "a \<in> set (eventAssignments s1 eventId)"
    then have ev: "assignment_eventId a = eventId" by (simp add: eventAssignments_def)
    from a have "assignment_id a < nextObjectId p0 + length ?ps"
      unfolding rows1 by (simp add: newAssignments_id_range)
    with next1 fresh have old: "assignment_id a < nextObjectId q1" by simp
    have "a \<notin> set (deleteMany (assignments s1) eventId)"
      using ev by (simp add: deleteMany_def)
    moreover have "a \<notin> set (newAssignments (nextObjectId q1) eventId ?ps numbers2)"
      using old newAssignments_id_range [of a "nextObjectId q1" eventId ?ps numbers2]
      by auto
    ultimately show "a \<notin> set (assignments s2)" by (simp add: coll2)
  qed
  from A B C D E F G show ?thesis by (intro conjI)
qed

theorem rerun_replaces_assignments_witness:
  "assignSecretSanta noFaults 7 exampleProc exampleStore
     = (Inr (), exampleProc\<lparr>nextObjectId := 103\<rparr>, exampleAssigned)
   \<and> assignSecretSanta noFaults 7 (exampleProc\<lparr>nextObjectId := 103\<rparr>) exampleAssigned
     = (Inr (), exampleProc\<lparr>nextObjectId := 106\<rparr>, exampleReassigned)
   \<and> distinct (map user_id (users exampleStore))
   \<and> valid_rng (random (exampleProc\<lparr>nextObjectId := 103\<rparr>))
   \<and> map assignment_id (eventAssignments exampleAssigned 7) = [100, 101, 102]
   \<and> map assignment_id (eventAssignments exampleReassigned 7) = [103, 104, 105]
   \<and> list_all (\<lambda>a. santaUserId a \<noteq> receiverUserId a) (eventAssignments exampleReassigned 7)
   \<and> list_all (\<lambda>a. a \<notin> set (assignments exampleReassigned))
         (eventAssignments exampleAssigned 7)"
proof -
  have d: "distinct (map user_id (users exampleStore))"
    by (simp add: example_defs)
  have v: "valid_rng (random (exampleProc\<lparr>nextObjectId := 103\<rparr>))"
    by (simp add: exampleProc_def valid_rng_def)
  have f: "nextObjectId (exampleProc\<lparr>nextObjectId := 103\<rparr>)
             \<le> nextObjectId (exampleProc\<lparr>nextObjectId := 103\<rparr>)" by simp
  have i1: "map assignment_id (eventAssignments exampleAssigned 7) = [100, 101, 102]"
    by (simp add: eventAssignments_def exampleAssigned_def)
  have i2: "map assignment_id (eventAssignments exampleReassigned 7) = [103, 104, 105]"
    by (simp add: eventAssignments_def exampleReassigned_def)
  note t = rerun_replaces_assignments [OF example_run_three example_rerun d v f]
  from t have "\<forall>a \<in> set (eventAssignments exampleReassigned 7).
                 santaUserId a \<noteq> receiverUserId a"
    by (elim conjE)
  then have e: "list_all (\<lambda>a. santaUserId a \<noteq> receiverUserId a)
                  (eventAssignments exampleReassigned 7)"
    by (simp only: list_all_iff)
  from t have "\<forall>a \<in> set (eventAssignments exampleAssigned 7).
                 a \<notin> set (assignments exampleReassigned)"
    by (elim conjE)
  then have g: "list_all (\<lambda>a. a \<notin> set (assignments exampleReassigned))
                  (eventAssignments exampleAssigned 7)"
    by (simp only: list_all_iff)
  from example_run_three example_rerun d v i1 i2 e g show ?thesis by (intro conjI)
qed

section \<open>Properties of the assignment reader\<close>









end
